theory Spec2Isabelle
  imports Complex_Main "HOL-Library.AList" "HOL-Library.Log_Nat"
begin

section \<open>Text helpers used by the in-page scripts\<close>

text \<open>
  The scraper reads the rendered page through JavaScript passed to \<open>page.evaluate\<close>.
  Element texts are modelled as \<open>string\<close>; the regular expressions of the scripts are
  written out as the scanning functions they denote. Only ASCII digits match \<open>\d\<close>.
\<close>

definition is_digit :: "char \<Rightarrow> bool" where
  "is_digit c = (c \<in> set ''0123456789'')"

definition digit_val :: "char \<Rightarrow> int" where
  "digit_val c = int (of_char c) - 48"

text \<open>\<open>parseInt\<close> on a string of decimal digits.\<close>

definition parse_int :: "string \<Rightarrow> int" where
  "parse_int ds = foldl (\<lambda>n c. 10 * n + digit_val c) 0 ds"

text \<open>\<open>s.replace(/,/g, '')\<close>\<close>

definition remove_commas :: "string \<Rightarrow> string" where
  "remove_commas s = filter (\<lambda>c. c \<noteq> CHR '','') s"

text \<open>
  Group 1 of the first match of \<open>/(\d{2,}|\d+,\d+)\s*(?:units?|pcs?|cards?)?/i\<close>.
  The trailing part of the pattern can always match the empty string, so a match exists
  exactly where group 1 does. At each start position the first alternative (a run of two
  or more digits, taken greedily) is tried before the second (digits, a comma, digits).
\<close>

fun comma_then_digit :: "string \<Rightarrow> bool" where
  "comma_then_digit (c # d # _) = (c = CHR '','' \<and> is_digit d)"
| "comma_then_digit _ = False"

fun row_qty_match :: "string \<Rightarrow> string option" where
  "row_qty_match [] = None"
| "row_qty_match (c # cs) =
     (let run = takeWhile is_digit (c # cs); rest = dropWhile is_digit (c # cs)
      in if 2 \<le> length run then Some run
         else if run \<noteq> [] \<and> comma_then_digit rest
              then Some (run @ CHR '','' # takeWhile is_digit (tl rest))
         else row_qty_match cs)"

text \<open>Group 1 of the first match of \<open>/(\d+)/\<close>.\<close>

definition cell_qty_match :: "string \<Rightarrow> string option" where
  "cell_qty_match s =
     (let run = takeWhile is_digit (dropWhile (\<lambda>c. \<not> is_digit c) s)
      in if run = [] then None else Some run)"

text \<open>Group 1 of the first match of \<open>/\$([\d,.]+)/\<close>.\<close>

definition is_price_char :: "char \<Rightarrow> bool" where
  "is_price_char c = (is_digit c \<or> c = CHR '','' \<or> c = CHR ''.'')"

fun price_match :: "string \<Rightarrow> string option" where
  "price_match [] = None"
| "price_match (c # cs) =
     (if c = CHR ''$'' \<and> takeWhile is_price_char cs \<noteq> []
      then Some (takeWhile is_price_char cs)
      else price_match cs)"

text \<open>
  A JavaScript number as the scripts read it from a text: \<open>NaN\<close>, or \<open>Num x\<close> for
  the decimal literal of exact value \<open>x\<close>. The double that stands for it in the program
  is \<open>float_of\<close> below. The test \<open>price > 0\<close> of the script is made on the literal,
  which agrees with the double unless the literal is positive and at most \<open>2 ^ - 1075\<close>.
\<close>

datatype number = NaN | Num rat

text \<open>
  \<open>parseFloat\<close> on a string of digits and dots (what is left of group 1 of the price
  pattern once the commas are removed): the longest prefix that is a decimal literal,
  \<open>NaN\<close> when there is none.
\<close>

definition parse_float :: "string \<Rightarrow> number" where
  "parse_float s =
     (let ip = takeWhile is_digit s;
          r = dropWhile is_digit s;
          fp = (case r of [] \<Rightarrow> [] | c # r' \<Rightarrow> if c = CHR ''.'' then takeWhile is_digit r' else [])
      in if ip = [] \<and> fp = [] then NaN
         else Num (of_int (parse_int ip) + of_int (parse_int fp) / 10 ^ length fp))"

text \<open>\<open>price > 0\<close>: false for \<open>NaN\<close>.\<close>

fun positive :: "number \<Rightarrow> bool" where
  "positive NaN = False"
| "positive (Num x) = (0 < x)"

section \<open>Pricing extractor\<close>

subsection \<open>The in-page script of \<open>_extract_pricing\<close>\<close>

text \<open>
  What the script reads from the page: the texts of the row-like elements, for each table
  the texts of its \<open>td\<close> cells in document order, and the text of the first element
  matching the current-price selector (if any). \<open>evaluate_fails\<close> stands for a page on
  which \<open>page.evaluate\<close> raises.
\<close>

record candidate =
  c_quantity :: "int option"
  c_total_price :: number

definition admissible :: "int \<Rightarrow> number \<Rightarrow> bool" where
  "admissible qty price = (qty \<ge> 50 \<and> positive price \<and> qty < 100000)"

definition row_candidates :: "string \<Rightarrow> candidate list" where
  "row_candidates text =
     (case row_qty_match text of
        None \<Rightarrow> []
      | Some qm \<Rightarrow>
         (case price_match text of
            None \<Rightarrow> []
          | Some pm \<Rightarrow>
             (let qty = parse_int (remove_commas qm);
                  price = parse_float (remove_commas pm)
              in if admissible qty price
                 then [\<lparr>c_quantity = Some qty, c_total_price = price\<rparr>]
                 else [])))"

definition cell_pair_candidates :: "string \<Rightarrow> string \<Rightarrow> candidate list" where
  "cell_pair_candidates qtyText priceText =
     (if qtyText \<noteq> [] \<and> priceText \<noteq> [] then
        (case cell_qty_match qtyText of
           None \<Rightarrow> []
         | Some qm \<Rightarrow>
            (case price_match priceText of
               None \<Rightarrow> []
             | Some pm \<Rightarrow>
                (let qty = parse_int qm;
                     price = parse_float (remove_commas pm)
                 in if admissible qty price
                    then [\<lparr>c_quantity = Some qty, c_total_price = price\<rparr>]
                    else [])))
      else [])"

text \<open>\<open>for (let i = 0; i < cells.length - 1; i++)\<close> over adjacent cells.\<close>

fun table_candidates :: "string list \<Rightarrow> candidate list" where
  "table_candidates (a # b # rest) = cell_pair_candidates a b @ table_candidates (b # rest)"
| "table_candidates _ = []"

definition main_price_candidates :: "string option \<Rightarrow> candidate list" where
  "main_price_candidates mp =
     (case mp of
        None \<Rightarrow> []
      | Some text \<Rightarrow>
         (case price_match text of
            None \<Rightarrow> []
          | Some pm \<Rightarrow> [\<lparr>c_quantity = None, c_total_price = parse_float (remove_commas pm)\<rparr>]))"

record pricing_dom =
  price_rows :: "string list"
  price_tables :: "string list list"
  main_price :: "string option"

definition pricing_script :: "pricing_dom \<Rightarrow> candidate list" where
  "pricing_script d =
     concat (map row_candidates (price_rows d))
     @ concat (map table_candidates (price_tables d))
     @ main_price_candidates (main_price d)"

subsection \<open>The Python part of \<open>_extract_pricing\<close>\<close>

text \<open>
  A Python float (IEEE 754 binary64): not-a-number, an infinity, or a finite value, which
  is a rational number. The two zeros are not told apart.
\<close>

datatype float = FNaN | PInf | NInf | Fin rat

record 'a money =
  amount :: 'a
  currency :: string

record tier =
  quantity :: "int option"
  unit_price :: "float option money"
  total_price :: "number money"

text \<open>Truth value of \<open>p['quantity']\<close>: \<open>None\<close> and \<open>0\<close> are false.\<close>

fun truthy :: "int option \<Rightarrow> bool" where
  "truthy None = False"
| "truthy (Some q) = (q \<noteq> 0)"

text \<open>The nearest integer, a tie going to the even one.\<close>

definition round_half_even :: "rat \<Rightarrow> int" where
  "round_half_even y =
     (let f = \<lfloor>y\<rfloor>; d = y - of_int f
      in if d < 1 / 2 then f else if 1 / 2 < d then f + 1 else if even f then f else f + 1)"

text \<open>
  Rounding to nearest, ties to even, of a rational number to binary64. \<open>binade x\<close> is
  the exponent \<open>e\<close> with \<open>2 ^ e \<le> x < 2 ^ (e + 1)\<close>, found from the bit lengths of
  numerator and denominator. The doubles of that binade are the multiples of
  \<open>2 ^ (e - 52)\<close>; below \<open>2 ^ - 1022\<close> (subnormal numbers) they are the multiples of
  \<open>2 ^ - 1074\<close>. A rounded value of magnitude \<open>2 ^ 1024\<close> overflows to an infinity.
\<close>

definition pow2 :: "int \<Rightarrow> rat" where
  "pow2 e = (if 0 \<le> e then 2 ^ nat e else 1 / 2 ^ nat (- e))"

definition binade :: "rat \<Rightarrow> int" where
  "binade x =
     (let d = bitlen (fst (quotient_of x)) - bitlen (snd (quotient_of x))
      in if pow2 d \<le> x then d else d - 1)"

definition to_grid :: "rat \<Rightarrow> rat" where
  "to_grid x =
     (let e = max (binade \<bar>x\<bar>) (- 1022); ulp = pow2 (e - 52)
      in of_int (round_half_even (x / ulp)) * ulp)"

definition nearest_double :: "rat \<Rightarrow> float" where
  "nearest_double x =
     (if x = 0 then Fin 0
      else if pow2 1024 \<le> to_grid x then PInf
      else if to_grid x \<le> - pow2 1024 then NInf
      else Fin (to_grid x))"

text \<open>
  The Python value of \<open>p['total_price']\<close>: the double that \<open>parseFloat\<close> returned for
  the literal.
\<close>

fun float_of :: "number \<Rightarrow> float" where
  "float_of NaN = FNaN"
| "float_of (Num x) = nearest_double x"

text \<open>
  \<open>p['total_price'] / p['quantity']\<close>, the divisor being a non-zero integer that a
  double holds exactly (the script returns no quantity of \<open>100000\<close> or more, and line
  301 divides by no zero): the quotient of the two values, correctly rounded.
\<close>

fun true_divide :: "float \<Rightarrow> int \<Rightarrow> float" where
  "true_divide FNaN q = FNaN"
| "true_divide PInf q = (if 0 < q then PInf else NInf)"
| "true_divide NInf q = (if 0 < q then NInf else PInf)"
| "true_divide (Fin a) q = nearest_double (a / of_int q)"

text \<open>
  Python's \<open>round(x, 4)\<close> on a float. CPython writes the exact value of the double with
  four decimals, correctly rounded and a tie going to the even digit (\<open>round4\<close>), and
  reads that decimal back as the nearest double; a NaN or an infinity is returned as it
  is.
\<close>

definition round4 :: "rat \<Rightarrow> rat" where
  "round4 x = of_int (round_half_even (x * 10000)) / 10000"

fun py_round4 :: "float \<Rightarrow> float" where
  "py_round4 (Fin a) = nearest_double (round4 a)"
| "py_round4 x = x"

text \<open>
  \<open>round(p['total_price'] / p['quantity'], 4) if p['quantity'] else None\<close>.
\<close>

fun unit_price_of :: "number \<Rightarrow> int option \<Rightarrow> float option" where
  "unit_price_of t None = None"
| "unit_price_of t (Some q) =
     (if q \<noteq> 0 then Some (py_round4 (true_divide (float_of t) q)) else None)"

definition make_tier :: "candidate \<Rightarrow> tier" where
  "make_tier p =
     \<lparr>quantity = c_quantity p,
      unit_price = \<lparr>amount = unit_price_of (c_total_price p) (c_quantity p), currency = ''USD''\<rparr>,
      total_price = \<lparr>amount = c_total_price p, currency = ''USD''\<rparr>\<rparr>"

text \<open>The loop over \<open>pricing_data\<close>, with the set \<open>seen\<close> and the list \<open>pricing\<close>.\<close>

fun collect_tiers :: "candidate list \<Rightarrow> int option set \<Rightarrow> tier list \<Rightarrow> tier list" where
  "collect_tiers [] seen pricing = pricing"
| "collect_tiers (p # ps) seen pricing =
     (if truthy (c_quantity p) \<and> c_quantity p \<notin> seen
      then collect_tiers ps (insert (c_quantity p) seen) (pricing @ [make_tier p])
      else collect_tiers ps seen pricing)"

text \<open>The sort key \<open>x['quantity'] or 0\<close>.\<close>

fun sort_quantity :: "tier \<Rightarrow> int" where
  "sort_quantity t = (case quantity t of None \<Rightarrow> 0 | Some q \<Rightarrow> q)"

definition tiers_of_pricing_data :: "candidate list \<Rightarrow> tier list" where
  "tiers_of_pricing_data pricing_data = sort_key sort_quantity (collect_tiers pricing_data {} [])"

section \<open>The rendered page\<close>

text \<open>
  What the scraper can observe of a rendered page. Of an element the option script reads
  the number of child elements, \<open>innerText\<close>, and for the element and its ancestors the
  attributes \<open>data-id\<close>, \<open>data-value\<close> (\<open>None\<close> when absent) and the \<open>id\<close>
  property (empty when absent). \<open>evaluate_fails\<close> stands for a page on which
  \<open>page.evaluate\<close> raises.
\<close>

record dom_node =
  data_id :: "string option"
  data_value :: "string option"
  node_id :: string

record dom_element =
  child_count :: nat
  inner_text :: string
  self_node :: dom_node
  ancestors :: "dom_node list"

record page =
  evaluate_fails :: bool
  elements :: "dom_element list"
  pricing_part :: pricing_dom

definition extract_pricing :: "page \<Rightarrow> tier list" where
  "extract_pricing pg =
     (if evaluate_fails pg then []
      else tiers_of_pricing_data (pricing_script (pricing_part pg)))"

section \<open>Option discovery\<close>

subsection \<open>The in-page script of \<open>_discover_options\<close>\<close>

record option_value =
  ov_value :: string
  ov_id :: string

text \<open>\<open>String.prototype.trim\<close>, \<open>toLowerCase\<close> and \<open>includes\<close> on ASCII text.\<close>

definition is_space :: "char \<Rightarrow> bool" where
  "is_space c = (c \<in> set [CHR 0x09, CHR 0x0A, CHR 0x0B, CHR 0x0C, CHR 0x0D, CHR 0x20])"

definition js_trim :: "string \<Rightarrow> string" where
  "js_trim s = rev (dropWhile is_space (rev (dropWhile is_space s)))"

definition to_lower_char :: "char \<Rightarrow> char" where
  "to_lower_char c =
     (case map_of (zip ''ABCDEFGHIJKLMNOPQRSTUVWXYZ'' ''abcdefghijklmnopqrstuvwxyz'') c of
        None \<Rightarrow> c
      | Some l \<Rightarrow> l)"

definition to_lower :: "string \<Rightarrow> string" where
  "to_lower s = map to_lower_char s"

fun starts_with :: "string \<Rightarrow> string \<Rightarrow> bool" where
  "starts_with s [] = True"
| "starts_with [] (k # ks) = False"
| "starts_with (c # cs) (k # ks) = (c = k \<and> starts_with cs ks)"

fun js_includes :: "string \<Rightarrow> string \<Rightarrow> bool" where
  "js_includes [] kw = (kw = [])"
| "js_includes (c # cs) kw = (starts_with (c # cs) kw \<or> js_includes cs kw)"

text \<open>The table \<open>keywords\<close> of the script; \<open>keywords[p] || []\<close>.\<close>

definition param_keywords :: "string \<Rightarrow> string list" where
  "param_keywords spf_param =
     (if spf_param = ''spf0'' then [''Standard'', ''Die Cut'', ''Folded'', ''Business Cards'']
      else if spf_param = ''spf1'' then [''Rectangle'', ''Square'', ''Rounded'', ''Corners'']
      else if spf_param = ''spf2'' then [''x'', ''in'', ''inch'', [CHR 0x22], [CHR 0x27]]
      else if spf_param = ''spf3''
        then [''pt'', ''lb'', ''Paper'', ''Cardstock'', ''Gloss'', ''Matte'']
      else [])"

definition has_keyword :: "string \<Rightarrow> string \<Rightarrow> bool" where
  "has_keyword spf_param text =
     list_ex (\<lambda>kw. js_includes (to_lower text) (to_lower kw)) (param_keywords spf_param)"

text \<open>
  \<open>current.getAttribute('data-id') || current.getAttribute('data-value') || current.id\<close>:
  the first operand that is neither null nor empty, else the last one.
\<close>

definition node_identifier :: "dom_node \<Rightarrow> string" where
  "node_identifier n =
     (case data_id n of
        Some (c # cs) \<Rightarrow> c # cs
      | _ \<Rightarrow> (case data_value n of
                Some (c # cs) \<Rightarrow> c # cs
              | _ \<Rightarrow> node_id n))"

text \<open>\<open>id && /^\d+$/.test(id)\<close>\<close>

definition is_numeric_id :: "string \<Rightarrow> bool" where
  "is_numeric_id s = (s \<noteq> [] \<and> list_all is_digit s)"

text \<open>
  The walk \<open>for (let i = 0; i < 3; i++)\<close> from the element upwards; the first argument
  counts the iterations left, the list is the element followed by its ancestors.
\<close>

fun find_identifier :: "nat \<Rightarrow> dom_node list \<Rightarrow> string option" where
  "find_identifier 0 chain = None"
| "find_identifier (Suc n) [] = None"
| "find_identifier (Suc n) (current # up) =
     (if is_numeric_id (node_identifier current) then Some (node_identifier current)
      else find_identifier n up)"

definition element_values :: "string \<Rightarrow> dom_element \<Rightarrow> option_value list" where
  "element_values spf_param el =
     (if child_count el = 0 \<and> inner_text el \<noteq> [] then
        (let text = js_trim (inner_text el)
         in if length text > 2 \<and> length text < 100 then
              (if has_keyword spf_param text then
                 (case find_identifier 3 (self_node el # ancestors el) of
                    None \<Rightarrow> []
                  | Some ident \<Rightarrow> [\<lparr>ov_value = text, ov_id = ident\<rparr>])
               else [])
            else [])
      else [])"

definition option_values_script :: "string \<Rightarrow> dom_element list \<Rightarrow> option_value list" where
  "option_values_script spf_param els = concat (map (element_values spf_param) els)"

subsection \<open>The Python part of \<open>_discover_options\<close>\<close>

record axis =
  ax_name :: string
  ax_key :: string
  ax_spf_param :: string
  ax_values :: "option_value list"

text \<open>The key \<open>f"{val['value']}_{val['id']}"\<close> of the set \<open>seen\<close>.\<close>

definition seen_key :: "option_value \<Rightarrow> string" where
  "seen_key v = ov_value v @ ''_'' @ ov_id v"

fun dedup_values :: "option_value list \<Rightarrow> string set \<Rightarrow> option_value list \<Rightarrow> option_value list"
  where
  "dedup_values [] seen vals = vals"
| "dedup_values (v # vs) seen vals =
     (if seen_key v \<notin> seen
      then dedup_values vs (insert (seen_key v) seen) (vals @ [v])
      else dedup_values vs seen vals)"

text \<open>The body of the \<open>try\<close>: when \<open>page.evaluate\<close> raises, the values stay empty.\<close>

definition discovered_values :: "page \<Rightarrow> string \<Rightarrow> option_value list" where
  "discovered_values pg spf_param =
     (if evaluate_fails pg then []
      else dedup_values (option_values_script spf_param (elements pg)) {} [])"

text \<open>The dictionary \<open>spf_names\<close>, in insertion order: parameter, name, key.\<close>

definition spf_names :: "(string \<times> string \<times> string) list" where
  "spf_names =
     [(''spf0'', ''Product Type'', ''product_type''),
      (''spf1'', ''Shape'', ''shape''),
      (''spf2'', ''Size'', ''size''),
      (''spf3'', ''Material'', ''paper_stock'')]"

fun discover_loop :: "page \<Rightarrow> (string \<times> string \<times> string) list \<Rightarrow> axis list \<Rightarrow> axis list" where
  "discover_loop pg [] options = options"
| "discover_loop pg ((spf_param, name, key) # rest) options =
     (let option_group =
            \<lparr>ax_name = name, ax_key = key, ax_spf_param = spf_param,
             ax_values = discovered_values pg spf_param\<rparr>
      in if ax_values option_group \<noteq> []
         then discover_loop pg rest (options @ [option_group])
         else discover_loop pg rest options)"

definition get_predefined_options :: "axis list" where
  "get_predefined_options =
     [\<lparr>ax_name = ''Shape'', ax_key = ''shape'', ax_spf_param = ''spf1'',
       ax_values =
         [\<lparr>ov_value = ''Rectangle'', ov_id = ''1390''\<rparr>,
          \<lparr>ov_value = ''Rectangle | Rounded Corners'', ov_id = ''1399''\<rparr>]\<rparr>,
      \<lparr>ax_name = ''Size'', ax_key = ''size'', ax_spf_param = ''spf2'',
       ax_values =
         [\<lparr>ov_value = ''2 x 3.5 in'', ov_id = ''1391''\<rparr>,
          \<lparr>ov_value = ''2 x 2 in'', ov_id = ''1406''\<rparr>]\<rparr>,
      \<lparr>ax_name = ''Paper stock'', ax_key = ''paper_stock'', ax_spf_param = ''spf3'',
       ax_values =
         [\<lparr>ov_value = ''14pt Cardstock Gloss'', ov_id = ''1419''\<rparr>,
          \<lparr>ov_value = ''14pt Cardstock Matte'', ov_id = ''1420''\<rparr>,
          \<lparr>ov_value = ''14pt Cardstock High Gloss (UV)'', ov_id = ''1421''\<rparr>]\<rparr>]"

definition total_values :: "axis list \<Rightarrow> nat" where
  "total_values options = sum_list (map (\<lambda>opt. length (ax_values opt)) options)"

definition discover_options :: "page \<Rightarrow> axis list" where
  "discover_options pg =
     (let options = discover_loop pg spf_names []
      in if length options < 2 \<or> total_values options < 4
         then get_predefined_options
         else options)"

section \<open>Selection enumerator\<close>

text \<open>
  The entries of \<open>values_with_meta\<close> in \<open>scrape\<close>. Every axis that
  \<open>_discover_options\<close> returns carries \<open>spf_param\<close>, so \<open>opt.get('spf_param')\<close> is
  that string.
\<close>

record selected =
  s_key :: string
  s_value :: string
  s_id :: string
  s_spf_param :: string

definition values_with_meta :: "axis \<Rightarrow> selected list" where
  "values_with_meta opt =
     map (\<lambda>val. \<lparr>s_key = ax_key opt, s_value = ov_value val, s_id = ov_id val,
                  s_spf_param = ax_spf_param opt\<rparr>)
         (ax_values opt)"

text \<open>\<open>if values_with_meta: option_value_lists.append(values_with_meta)\<close>\<close>

definition option_value_lists :: "axis list \<Rightarrow> selected list list" where
  "option_value_lists options = filter (\<lambda>l. l \<noteq> []) (map values_with_meta options)"

text \<open>\<open>itertools.product(*lists)\<close>: the rightmost list advances on every step.\<close>

fun itertools_product :: "'a list list \<Rightarrow> 'a list list" where
  "itertools_product [] = [[]]"
| "itertools_product (xs # xss) =
     concat (map (\<lambda>x. map (\<lambda>combo. x # combo) (itertools_product xss)) xs)"

definition all_combinations :: "axis list \<Rightarrow> selected list list" where
  "all_combinations options =
     (if option_value_lists options \<noteq> [] then itertools_product (option_value_lists options)
      else [])"

text \<open>
  A Python \<open>dict\<close> keeps its keys in insertion order; assigning to a key that is present
  replaces the value in place. That is \<open>AList.update\<close> on an association list.
  \<open>{item['key']: item for item in combo}\<close>:
\<close>

definition selection_of :: "selected list \<Rightarrow> (string \<times> selected) list" where
  "selection_of combo = foldl (\<lambda>d item. AList.update (s_key item) item d) [] combo"

definition enumerate_selections :: "axis list \<Rightarrow> (string \<times> selected) list list" where
  "enumerate_selections options = map selection_of (all_combinations options)"

section \<open>Variant navigator\<close>

subsection \<open>Requoting\<close>

text \<open>
  \<open>urllib.parse.quote_plus\<close> on a string of bytes: letters, digits and \<open>_.-~\<close> stay,
  a space becomes \<open>+\<close>, every other byte becomes \<open>%XX\<close>.
\<close>

definition is_unreserved :: "char \<Rightarrow> bool" where
  "is_unreserved c =
     (c \<in> set ''ABCDEFGHIJKLMNOPQRSTUVWXYZabcdefghijklmnopqrstuvwxyz0123456789_.-~'')"

definition hex_digit :: "nat \<Rightarrow> char" where
  "hex_digit n = ''0123456789ABCDEF'' ! (n mod 16)"

definition quote_char :: "char \<Rightarrow> string" where
  "quote_char c =
     (if is_unreserved c then [c]
      else if c = CHR '' '' then ''+''
      else [CHR ''%'', hex_digit (of_char c div 16), hex_digit (of_char c mod 16)])"

definition quote_plus :: "string \<Rightarrow> string" where
  "quote_plus s = concat (map quote_char s)"

definition encode_pair :: "string \<times> string \<Rightarrow> string" where
  "encode_pair kv = quote_plus (fst kv) @ ''='' @ quote_plus (snd kv)"

fun join_amp :: "string list \<Rightarrow> string" where
  "join_amp [] = []"
| "join_amp [s] = s"
| "join_amp (s # t # ts) = s @ ''&'' @ join_amp (t # ts)"

text \<open>\<open>urllib.parse.urlencode\<close> of a dictionary of strings.\<close>

definition urlencode :: "(string \<times> string) list \<Rightarrow> string" where
  "urlencode params = join_amp (map encode_pair params)"

text \<open>
  The six components that \<open>urlparse\<close> returns and \<open>urlunparse\<close> takes. Parsing a URL
  string, printing the components and \<open>parse_qs\<close> belong to the standard library and
  are parameters of the model.
\<close>

record url_components =
  scheme :: string
  netloc :: string
  path :: string
  params :: string
  query :: string
  fragment :: string

record urllib =
  urlparse :: "string \<Rightarrow> url_components"
  urlunparse :: "url_components \<Rightarrow> string"
  parse_qs :: "string \<Rightarrow> (string \<times> string list) list"

text \<open>\<open>{k: v[0] if v else '' for k, v in params.items()}\<close>\<close>

definition parse_url_params :: "urllib \<Rightarrow> string \<Rightarrow> (string \<times> string) list" where
  "parse_url_params lib url =
     foldl (\<lambda>d kv. AList.update (fst kv) (case snd kv of [] \<Rightarrow> [] | v # _ \<Rightarrow> v) d) []
       (parse_qs lib (query (urlparse lib url)))"

definition requoted_components :: "urllib \<Rightarrow> string \<Rightarrow> (string \<times> string) list \<Rightarrow> url_components"
  where
  "requoted_components lib base_url ps =
     (let parsed = urlparse lib base_url
      in \<lparr>scheme = scheme parsed, netloc = netloc parsed, path = path parsed,
          params = [], query = urlencode ps, fragment = []\<rparr>)"

definition build_url_with_params :: "urllib \<Rightarrow> string \<Rightarrow> (string \<times> string) list \<Rightarrow> string" where
  "build_url_with_params lib base_url ps = urlunparse lib (requoted_components lib base_url ps)"

text \<open>
  The loop \<open>for key, val in selection.items(): params[val['spf_param']] = val['id']\<close> on
  a copy of the base parameters. The test \<open>'spf_param' in val\<close> holds for every entry
  that \<open>scrape\<close> builds.
\<close>

definition variant_params ::
  "(string \<times> string) list \<Rightarrow> (string \<times> selected) list \<Rightarrow> (string \<times> string) list" where
  "variant_params base_params selection =
     foldl (\<lambda>ps kv. AList.update (s_spf_param (snd kv)) (s_id (snd kv)) ps) base_params selection"

text \<open>The query string cut at \<open>&\<close>.\<close>

fun split_amp :: "string \<Rightarrow> string list" where
  "split_amp [] = [[]]"
| "split_amp (c # cs) =
     (if c = CHR ''&'' then [] # split_amp cs
      else (case split_amp cs of [] \<Rightarrow> [[c]] | seg # segs \<Rightarrow> (c # seg) # segs))"

subsection \<open>The renderer\<close>

text \<open>
  The browser is the environment: the \<open>n\<close>-th call of \<open>page.goto\<close>, with its URL,
  either succeeds or raises, and leaves some page loaded. The state records the URLs
  navigated to, in order, and the page currently loaded.
\<close>

datatype error = NavigationError

record nav_result =
  nav_ok :: bool
  nav_page :: page

type_synonym renderer = "nat \<Rightarrow> string \<Rightarrow> nav_result"

record browser =
  navlog :: "string list"
  current :: page

definition blank_page :: page where
  "blank_page =
     \<lparr>evaluate_fails = False, elements = [],
      pricing_part = \<lparr>price_rows = [], price_tables = [], main_price = None\<rparr>\<rparr>"

definition new_page :: browser where
  "new_page = \<lparr>navlog = [], current = blank_page\<rparr>"

definition goto :: "renderer \<Rightarrow> string \<Rightarrow> browser \<Rightarrow> bool \<times> browser" where
  "goto R url b =
     (let r = R (length (navlog b)) url
      in (nav_ok r, \<lparr>navlog = navlog b @ [url], current = nav_page r\<rparr>))"

subsection \<open>\<open>_scrape_variant\<close>\<close>

record variant =
  sku :: "string option"
  available :: bool
  selection :: "(string \<times> option_value) list"
  pricing :: "tier list"

definition scrape_variant ::
  "urllib \<Rightarrow> renderer \<Rightarrow> string \<Rightarrow> (string \<times> string) list \<Rightarrow> (string \<times> selected) list
     \<Rightarrow> browser \<Rightarrow> variant option \<times> browser" where
  "scrape_variant lib R base_url base_params sel b =
     (let ps = variant_params base_params sel;
          variant_url = build_url_with_params lib base_url ps;
          (ok, b') = goto R variant_url b
      in if ok then
           (let prices = extract_pricing (current b')
            in (Some \<lparr>sku = None, available = (length prices > 0),
                      selection = map (\<lambda>kv. (fst kv, \<lparr>ov_value = s_value (snd kv),
                                                        ov_id = s_id (snd kv)\<rparr>)) sel,
                      pricing = prices\<rparr>, b'))
         else (None, b'))"

section \<open>Matrix assembler\<close>

record formatted_option =
  fo_name :: string
  fo_key :: string
  fo_values :: "option_value list"

text \<open>
  The record that \<open>scrape\<close> returns; the product metadata and the timestamp take no
  part in what follows and are left out.
\<close>

record matrix_record =
  source_url :: string
  options :: "formatted_option list"
  variants :: "variant list"

text \<open>The loop over \<open>all_combinations\<close>; a variant that is \<open>None\<close> is not appended.\<close>

fun scrape_loop ::
  "urllib \<Rightarrow> renderer \<Rightarrow> string \<Rightarrow> (string \<times> string) list \<Rightarrow> (string \<times> selected) list list
     \<Rightarrow> variant list \<Rightarrow> browser \<Rightarrow> variant list \<times> browser" where
  "scrape_loop lib R base_url url_params [] vs b = (vs, b)"
| "scrape_loop lib R base_url url_params (sel # sels) vs b =
     (case scrape_variant lib R base_url url_params sel b of
        (Some v, b') \<Rightarrow> scrape_loop lib R base_url url_params sels (vs @ [v]) b'
      | (None, b') \<Rightarrow> scrape_loop lib R base_url url_params sels vs b')"

text \<open>\<open>if not variants:\<close> the pricing of the page that is loaded at that moment.\<close>

definition base_configuration :: "variant list \<Rightarrow> browser \<Rightarrow> variant list" where
  "base_configuration vs b =
     (if vs = [] then
        (let prices = extract_pricing (current b)
         in if prices \<noteq> []
            then vs @ [\<lparr>sku = None, available = True, selection = [], pricing = prices\<rparr>]
            else vs)
      else vs)"

definition format_options :: "axis list \<Rightarrow> formatted_option list" where
  "format_options opts =
     map (\<lambda>opt. \<lparr>fo_name = ax_name opt, fo_key = ax_key opt, fo_values = ax_values opt\<rparr>) opts"

text \<open>
  \<open>scrape\<close>: a failure of the first \<open>page.goto\<close> leaves the \<open>try\<close> block through
  \<open>finally\<close> and the exception reaches the caller.
\<close>

definition scrape :: "urllib \<Rightarrow> renderer \<Rightarrow> string \<Rightarrow> (error + matrix_record) \<times> browser" where
  "scrape lib R url =
     (let url_params = parse_url_params lib url;
          base_url = takeWhile (\<lambda>c. c \<noteq> CHR ''?'') url;
          (ok, b) = goto R url new_page
      in if \<not> ok then (Inl NavigationError, b)
         else
           (let opts = discover_options (current b);
                (vs, b') = scrape_loop lib R base_url url_params (enumerate_selections opts) [] b;
                vs' = base_configuration vs b'
            in (Inr \<lparr>source_url = url, options = format_options opts, variants = vs'\<rparr>, b')))"

subsection \<open>The initial load of the sibling catalogue scraper\<close>

text \<open>
  \<open>AshleyFurnitureScraper.scrape\<close> loads its first page in
  \<open>for attempt in range(3)\<close>, leaving the loop on success and re-raising after the third
  failure. The first argument counts the attempts left after the current one.
\<close>

fun ashley_attempts :: "nat \<Rightarrow> renderer \<Rightarrow> string \<Rightarrow> browser \<Rightarrow> bool \<times> browser" where
  "ashley_attempts 0 R url b = goto R url b"
| "ashley_attempts (Suc n) R url b =
     (case goto R url b of
        (True, b') \<Rightarrow> (True, b')
      | (False, b') \<Rightarrow> ashley_attempts n R url b')"

definition ashley_initial_load :: "renderer \<Rightarrow> string \<Rightarrow> bool \<times> browser" where
  "ashley_initial_load R url = ashley_attempts 2 R url new_page"
section \<open>Auxiliary definitions and example inputs\<close>

text \<open>
  The candidates that the loop of \<open>_extract_pricing\<close> turns into tiers: those with a
  quantity that is true and not seen before.
\<close>

fun first_seen :: "candidate list \<Rightarrow> int option set \<Rightarrow> candidate list" where
  "first_seen [] seen = []"
| "first_seen (p # ps) seen =
     (if truthy (c_quantity p) \<and> c_quantity p \<notin> seen
      then p # first_seen ps (insert (c_quantity p) seen)
      else first_seen ps seen)"

definition in_bounds :: "candidate \<Rightarrow> bool" where
  "in_bounds c = (\<exists>q x. c_quantity c = Some q \<and> 50 \<le> q \<and> q < 100000
                     \<and> c_total_price c = Num x \<and> 0 < x)"

definition example_rows :: "candidate list" where
  "example_rows =
     [\<lparr>c_quantity = Some 100, c_total_price = Num 50\<rparr>,
      \<lparr>c_quantity = Some 100, c_total_price = Num 999\<rparr>,
      \<lparr>c_quantity = Some 250, c_total_price = Num 110\<rparr>]"

definition bounds_page :: page where
  "bounds_page =
     \<lparr>evaluate_fails = False, elements = [],
      pricing_part =
        \<lparr>price_rows = [''10 units $5.00'', ''150000 units $900.00'', ''100 units $50.00'',
                       ''250 units $0.00''],
         price_tables = [[''500'', ''$200.00'', ''20'']],
         main_price = Some ''$50.00''\<rparr>\<rparr>"

text \<open>A price table with four tiers, three of them with a quotient halfway between two
  multiples of \<open>1/10000\<close>.\<close>

definition unit_price_page :: page where
  "unit_price_page =
     \<lparr>evaluate_fails = False, elements = [],
      pricing_part =
        \<lparr>price_rows = [''250 units $110.00'', ''1000 units $0.25'', ''200 units $19.99'',
                       ''2000 units $12.50''],
         price_tables = [], main_price = None\<rparr>\<rparr>"

definition current_price_page :: page where
  "current_price_page =
     \<lparr>evaluate_fails = False, elements = [],
  pricing_part = \<lparr>price_rows = [], price_tables = [], main_price = Some
  ''$25.00''\<rparr>\<rparr>"

text \<open>
  The option group that one round of the loop of \<open>_discover_options\<close> builds, and the
  groups with at least one value; the values that the loop over \<open>option_values\<close> keeps.
\<close>

definition option_group :: "page \<Rightarrow> string \<times> string \<times> string \<Rightarrow> axis" where
  "option_group pg e =
     \<lparr>ax_name = fst (snd e), ax_key = snd (snd e), ax_spf_param = fst e,
      ax_values = discovered_values pg (fst e)\<rparr>"

definition discovered_axes :: "page \<Rightarrow> axis list" where
  "discovered_axes pg = filter (\<lambda>g. ax_values g \<noteq> []) (map (option_group pg) spf_names)"

fun first_values :: "option_value list \<Rightarrow> string set \<Rightarrow> option_value list" where
  "first_values [] seen = []"
| "first_values (v # vs) seen =
     (if seen_key v \<notin> seen then v # first_values vs (insert (seen_key v) seen)
      else first_values vs seen)"

definition plain_node :: dom_node where
  "plain_node = \<lparr>data_id = None, data_value = None, node_id = []\<rparr>"

definition leaf :: "string \<Rightarrow> dom_node list \<Rightarrow> dom_element" where
  "leaf text chain =
     \<lparr>child_count = 0, inner_text = text, self_node = hd chain, ancestors = tl chain\<rparr>"

definition rich_page :: page where
  "rich_page =
     \<lparr>evaluate_fails = False,
      elements =
        [leaf '' Rectangle '' [plain_node\<lparr>node_id := ''10''\<rparr>],
         leaf ''Square'' [plain_node, plain_node\<lparr>data_id := Some ''11''\<rparr>],
         leaf ''14pt Gloss''
           [plain_node, plain_node\<lparr>data_id := Some ''card''\<rparr>,
            plain_node\<lparr>data_value := Some ''20''\<rparr>],
         leaf ''Matte'' [plain_node\<lparr>node_id := ''21''\<rparr>],
         leaf ''Rectangle'' [plain_node\<lparr>node_id := ''10''\<rparr>],
  leaf ''Rounded'' [plain_node, plain_node, plain_node, plain_node\<lparr>node_id :=
  ''99''\<rparr>],
         leaf ''Corners'' [plain_node\<lparr>node_id := ''opt-7''\<rparr>]],
  pricing_part = \<lparr>price_rows = [], price_tables = [], main_price =
  None\<rparr>\<rparr>"

definition rich_axes :: "axis list" where
  "rich_axes =
     [\<lparr>ax_name = ''Shape'', ax_key = ''shape'', ax_spf_param = ''spf1'',
       ax_values = [\<lparr>ov_value = ''Rectangle'', ov_id = ''10''\<rparr>,
                    \<lparr>ov_value = ''Square'', ov_id = ''11''\<rparr>]\<rparr>,
      \<lparr>ax_name = ''Material'', ax_key = ''paper_stock'', ax_spf_param = ''spf3'',
       ax_values = [\<lparr>ov_value = ''14pt Gloss'', ov_id = ''20''\<rparr>,
                    \<lparr>ov_value = ''Matte'', ov_id = ''21''\<rparr>]\<rparr>]"

text \<open>
  The axes that have a value, the invariant of a list of axes (keys distinct across
  axes, no value repeated within an axis), and selection number i written out by
  position.
\<close>

definition surviving :: "axis list \<Rightarrow> axis list" where
  "surviving opts = filter (\<lambda>a. ax_values a \<noteq> []) opts"

definition wf_axes :: "axis list \<Rightarrow> bool" where
  "wf_axes opts = (distinct (map ax_key opts) \<and> list_all (\<lambda>a. distinct (ax_values a)) opts)"

definition counts :: "axis list \<Rightarrow> nat list" where
  "counts opts = map (\<lambda>a. length (ax_values a)) opts"

definition pick :: "axis \<Rightarrow> nat \<Rightarrow> string \<times> selected" where
  "pick a n =
     (ax_key a, \<lparr>s_key = ax_key a, s_value = ov_value (ax_values a ! n),
                 s_id = ov_id (ax_values a ! n), s_spf_param = ax_spf_param a\<rparr>)"

definition nth_selection :: "axis list \<Rightarrow> nat \<Rightarrow> (string \<times> selected) list" where
  "nth_selection axes i =
     map (\<lambda>j. pick (axes ! j)
                 ((i div prod_list (counts (drop (Suc j) axes))) mod length (ax_values (axes ! j))))
         [0..<length axes]"

definition gap_axes :: "axis list" where
  "gap_axes = map (\<lambda>a. if ax_key a = ''size'' then a\<lparr>ax_values := []\<rparr> else a)
                get_predefined_options"

text \<open>
  The query parameter that a selection entry controls and the pair it sets; the default
  product URL with its parameters, a stand-in for the library on URLs of that shape, and
  the last selection of the predefined table.
\<close>

definition axis_param :: "string \<times> selected \<Rightarrow> string" where
  "axis_param kv = s_spf_param (snd kv)"

definition chosen_pair :: "string \<times> selected \<Rightarrow> string \<times> string" where
  "chosen_pair kv = (s_spf_param (snd kv), s_id (snd kv))"

definition example_url :: string where
  "example_url =
     ''https://us.bizay.com/en-us/business-cards-2?id=443495438&spf0=1411&spf1=1390''
     @ ''&spf2=1391&spf3=1419&productGroupId=1386&indexManagementId=3''"

text \<open>A stand-in for \<open>urllib.parse\<close> that is right on URLs of the shape of the example.\<close>

definition example_lib :: urllib where
  "example_lib =
     \<lparr>urlparse = (\<lambda>u. \<lparr>scheme = ''https'', netloc = ''us.bizay.com'',
                         path = ''/en-us/business-cards-2'', params = [],
  query = drop 1 (dropWhile (\<lambda>c. c \<noteq> CHR ''?'') u), fragment =
  []\<rparr>),
      urlunparse = (\<lambda>c. scheme c @ ''://'' @ netloc c @ path c
                         @ (if query c = [] then [] else CHR ''?'' # query c)),
  parse_qs = (\<lambda>q. map (\<lambda>seg. (takeWhile (\<lambda>c. c \<noteq> CHR
  ''='') seg,
                                    [drop 1 (dropWhile (\<lambda>c. c \<noteq> CHR ''='') seg)]))
                         (split_amp q))\<rparr>"

definition example_params :: "(string \<times> string) list" where
  "example_params =
     [(''id'', ''443495438''), (''spf0'', ''1411''), (''spf1'', ''1390''), (''spf2'', ''1391''),
      (''spf3'', ''1419''), (''productGroupId'', ''1386''), (''indexManagementId'', ''3'')]"

definition example_selection :: "(string \<times> selected) list" where
  "example_selection = enumerate_selections get_predefined_options ! 11"

text \<open>
  The URL that a selection is navigated to, the variant that a loaded page gives for a
  selection, what one selection contributes to the loop (by the number of its
  navigation), the variants and the page that the loop leaves, and renderers used as
  examples.
\<close>

definition variant_url ::
  "urllib \<Rightarrow> string \<Rightarrow> (string \<times> string) list \<Rightarrow> (string \<times> selected) list \<Rightarrow> string" where
  "variant_url lib base_url bp sel = build_url_with_params lib base_url (variant_params bp sel)"

definition variant_of :: "(string \<times> selected) list \<Rightarrow> page \<Rightarrow> variant" where
  "variant_of sel pg =
     \<lparr>sku = None, available = (extract_pricing pg \<noteq> []),
  selection = map (\<lambda>kv. (fst kv, \<lparr>ov_value = s_value (snd kv), ov_id =
  s_id (snd kv)\<rparr>)) sel,
      pricing = extract_pricing pg\<rparr>"

definition contribution ::
  "urllib \<Rightarrow> renderer \<Rightarrow> string \<Rightarrow> (string \<times> string) list \<Rightarrow> nat \<times> (string \<times> selected) list
     \<Rightarrow> variant list" where
  "contribution lib R base_url bp ksel =
     (if nav_ok (R (fst ksel) (variant_url lib base_url bp (snd ksel)))
  then [variant_of (snd ksel) (nav_page (R (fst ksel) (variant_url lib base_url bp (snd
  ksel))))]
      else [])"

definition loop_variants ::
  "urllib \<Rightarrow> renderer \<Rightarrow> string \<Rightarrow> (string \<times> string) list \<Rightarrow> nat \<Rightarrow> (string \<times> selected) list list
     \<Rightarrow> variant list" where
  "loop_variants lib R base_url bp n sels =
     concat (map (contribution lib R base_url bp) (zip [n ..< n + length sels] sels))"

definition page_after ::
  "urllib \<Rightarrow> renderer \<Rightarrow> string \<Rightarrow> (string \<times> string) list \<Rightarrow> nat \<Rightarrow> (string \<times> selected) list list
     \<Rightarrow> page \<Rightarrow> page" where
  "page_after lib R base_url bp n sels pg =
     (if sels = [] then pg
      else nav_page (R (n + length sels - 1) (variant_url lib base_url bp (last sels))))"

definition base_of :: "string \<Rightarrow> string" where
  "base_of url = takeWhile (\<lambda>c. c \<noteq> CHR ''?'') url"

definition selections_for :: "renderer \<Rightarrow> string \<Rightarrow> (string \<times> selected) list list" where
  "selections_for R url = enumerate_selections (discover_options (nav_page (R 0 url)))"

definition scrape_variants :: "urllib \<Rightarrow> renderer \<Rightarrow> string \<Rightarrow> variant list" where
  "scrape_variants lib R url = (case fst (scrape lib R url) of Inl e \<Rightarrow> [] | Inr r \<Rightarrow> variants r)"

definition priced_page :: page where
  "priced_page =
     \<lparr>evaluate_fails = False, elements = [],
  pricing_part = \<lparr>price_rows = [''100 units $50.00''], price_tables = [],
  main_price = None\<rparr>\<rparr>"

text \<open>The first navigation fails, every later one succeeds.\<close>

definition flaky :: renderer where
  "flaky n u = (if n = 0 then \<lparr>nav_ok = False, nav_page = blank_page\<rparr>
                else \<lparr>nav_ok = True, nav_page = priced_page\<rparr>)"

text \<open>Every navigation succeeds but the fourth.\<close>

definition one_bad :: renderer where
  "one_bad n u = (if n = 0 then \<lparr>nav_ok = True, nav_page = blank_page\<rparr>
                  else if n = 3 then \<lparr>nav_ok = False, nav_page = blank_page\<rparr>
                  else \<lparr>nav_ok = True, nav_page = priced_page\<rparr>)"

text \<open>
  The base page and the first variant page load without prices; every later navigation
  raises and leaves a page with a price row.
\<close>

definition stalled :: renderer where
  "stalled n u = (if n \<le> 1 then \<lparr>nav_ok = True, nav_page = blank_page\<rparr>
                  else \<lparr>nav_ok = False, nav_page = priced_page\<rparr>)"

text \<open>The base page loads; every variant navigation raises and leaves a priced page.\<close>

definition all_fail :: renderer where
  "all_fail n u = (if n = 0 then \<lparr>nav_ok = True, nav_page = blank_page\<rparr>
                   else \<lparr>nav_ok = False, nav_page = priced_page\<rparr>)"

section \<open>Binary floating point\<close>

text \<open>
  Rounding to an integer and to four decimals is within half a unit; rounding to a double
  is within a relative error of \<open>2 ^ - 53\<close>, up to an absolute error of \<open>2 ^ - 1075\<close>
  for subnormal numbers.
\<close>

lemma round_half_even_near: "\<bar>of_int (round_half_even y) - y\<bar> \<le> 1 / 2"
proof -
  have "of_int \<lfloor>y\<rfloor> \<le> y" "y < of_int \<lfloor>y\<rfloor> + 1"
    by linarith+
  then show ?thesis
    by (auto simp: round_half_even_def Let_def)
qed

lemma round4_near: "\<bar>round4 x - x\<bar> \<le> 1 / 20000"
proof -
  have "\<bar>of_int (round_half_even (x * 10000)) - x * 10000\<bar> \<le> 1 / 2"
    by (rule round_half_even_near)
  then show ?thesis
    by (simp add: round4_def field_simps abs_le_iff)
qed

lemma round_half_even_eval:
  assumes "\<bar>y - of_int r\<bar> < 1 / 2 \<or> (\<bar>y - of_int r\<bar> = 1 / 2 \<and> even r)"
  shows "round_half_even y = r"
proof -
  consider (lo) "of_int r \<le> y" "y < of_int r + 1 / 2"
    | (hi) "y < of_int r" "of_int r - 1 / 2 < y"
    | (tu) "y = of_int r + 1 / 2" "even r"
    | (td) "y = of_int r - 1 / 2" "even r"
    using assms by (cases "of_int r \<le> y") (auto simp: abs_if)
  then show ?thesis
  proof cases
    case lo
    then have "\<lfloor>y\<rfloor> = r" by (intro floor_unique) simp_all
    with lo show ?thesis by (simp add: round_half_even_def Let_def)
  next
    case hi
    then have "\<lfloor>y\<rfloor> = r - 1" by (intro floor_unique) simp_all
    with hi show ?thesis by (simp add: round_half_even_def Let_def)
  next
    case tu
    then have "\<lfloor>y\<rfloor> = r" by (intro floor_unique) simp_all
    with tu show ?thesis by (simp add: round_half_even_def Let_def)
  next
    case td
    then have "\<lfloor>y\<rfloor> = r - 1" by (intro floor_unique) simp_all
    with td show ?thesis by (simp add: round_half_even_def Let_def)
  qed
qed

lemma pow2_powi: "pow2 e = 2 powi e"
  by (auto simp: pow2_def power_int_def field_simps)

lemma pow2_pos: "0 < pow2 e"
  by (simp add: pow2_def)

lemma pow2_add: "pow2 (a + b) = pow2 a * pow2 b"
  by (simp add: pow2_powi power_int_add)

lemma pow2_mono: "a \<le> b \<Longrightarrow> pow2 a \<le> pow2 b"
  by (simp add: pow2_powi power_int_increasing)

lemma pow2_nat: "pow2 (int n) = 2 ^ n"
  by (simp add: pow2_def)

lemma pow2_diff: "pow2 (a - b) = pow2 a / pow2 b"
  by (simp add: pow2_powi power_int_diff)

lemma binade_bounds:
  assumes "0 < x"
  shows "pow2 (binade x) \<le> x \<and> x < pow2 (binade x + 1)"
proof -
  obtain a b where ab: "quotient_of x = (a, b)" by (cases "quotient_of x")
  then have b: "0 < b" by (rule quotient_of_denom_pos)
  from ab have x: "x = of_int a / of_int b" by (rule quotient_of_div)
  with assms b have a: "0 < a" by (simp add: zero_less_divide_iff)
  let ?la = "bitlen a" and ?lb = "bitlen b"
  from bitlen_bounds [OF a] have "2 ^ nat (?la - 1) \<le> a" "a < 2 ^ nat ?la" by simp_all
  then have a1: "(2::rat) ^ nat (?la - 1) \<le> of_int a" and a2: "of_int a < (2::rat) ^ nat ?la"
    by (metis of_int_le_iff of_int_numeral of_int_power, metis of_int_less_iff of_int_numeral of_int_power)
  from bitlen_bounds [OF b] have "2 ^ nat (?lb - 1) \<le> b" "b < 2 ^ nat ?lb" by simp_all
  then have b1: "(2::rat) ^ nat (?lb - 1) \<le> of_int b" and b2: "of_int b < (2::rat) ^ nat ?lb"
    by (metis of_int_le_iff of_int_numeral of_int_power, metis of_int_less_iff of_int_numeral of_int_power)
  have la: "1 \<le> ?la" and lb: "1 \<le> ?lb"
    using a b bitlen_eq_zero_iff [of a] bitlen_eq_zero_iff [of b] bitlen_nonneg [of a]
      bitlen_nonneg [of b] by linarith+
  have pa1: "pow2 (?la - 1) \<le> of_int a" and pa2: "of_int a < pow2 ?la"
    using a1 a2 la by (simp_all add: pow2_def)
  have pb1: "pow2 (?lb - 1) \<le> of_int b" and pb2: "of_int b < pow2 ?lb"
    using b1 b2 lb by (simp_all add: pow2_def)
  have bpos: "(0::rat) < of_int b" using b by simp
  have upper: "x < pow2 (?la - ?lb + 1)"
  proof -
    have "of_int a < pow2 ?la" by (rule pa2)
    also have "pow2 ?la = pow2 (?la - ?lb + 1) * pow2 (?lb - 1)"
      by (simp add: pow2_add [symmetric])
    also have "\<dots> \<le> pow2 (?la - ?lb + 1) * of_int b"
      using pb1 pow2_pos [of "?la - ?lb + 1"] by (simp add: mult_left_mono)
    finally show ?thesis using bpos by (simp add: x pos_divide_less_eq)
  qed
  have lower: "pow2 (?la - ?lb - 1) \<le> x"
  proof -
    have "pow2 (?la - ?lb - 1) * of_int b \<le> pow2 (?la - ?lb - 1) * pow2 ?lb"
      using pb2 pow2_pos [of "?la - ?lb - 1"] by (simp add: mult_left_mono)
    also have "\<dots> = pow2 (?la - 1)"
      by (simp add: pow2_add [symmetric])
    also have "\<dots> \<le> of_int a" by (rule pa1)
    finally show ?thesis using bpos by (simp add: x pos_le_divide_eq)
  qed
  show ?thesis
  proof (cases "pow2 (?la - ?lb) \<le> x")
    case True
    then have "binade x = ?la - ?lb" by (simp add: binade_def ab)
    with True upper show ?thesis by simp
  next
    case False
    then have "binade x = ?la - ?lb - 1" by (simp add: binade_def ab)
    with False lower show ?thesis by simp
  qed
qed

lemma pow2_half: "pow2 (e - 52) / 2 = pow2 (e - 53)"
proof -
  have "pow2 (e - 52) = pow2 (e - 53) * pow2 1"
    by (simp add: pow2_add [symmetric])
  then show ?thesis by (simp add: pow2_def)
qed

lemma pow2_53: "pow2 (e - 53) = pow2 e / 2 ^ 53"
  using pow2_diff [of e 53] by (simp add: pow2_def)

lemma to_grid_error:
  assumes "x \<noteq> 0"
  shows "\<bar>to_grid x - x\<bar> \<le> \<bar>x\<bar> / 2 ^ 53 + pow2 (- 1075)"
proof -
  define e where "e = max (binade \<bar>x\<bar>) (- 1022)"
  define ulp where "ulp = pow2 (e - 52)"
  have ulp: "0 < ulp" by (simp add: ulp_def pow2_pos)
  have grid: "to_grid x = of_int (round_half_even (x / ulp)) * ulp"
    by (simp add: to_grid_def e_def ulp_def Let_def)
  have "\<bar>of_int (round_half_even (x / ulp)) - x / ulp\<bar> \<le> 1 / 2"
    by (rule round_half_even_near)
  then have "\<bar>of_int (round_half_even (x / ulp)) - x / ulp\<bar> * ulp \<le> 1 / 2 * ulp"
    using ulp by (simp add: mult_right_mono)
  moreover have "\<bar>of_int (round_half_even (x / ulp)) - x / ulp\<bar> * ulp = \<bar>to_grid x - x\<bar>"
  proof -
    have "\<bar>of_int (round_half_even (x / ulp)) - x / ulp\<bar> * ulp
        = \<bar>(of_int (round_half_even (x / ulp)) - x / ulp) * ulp\<bar>"
      using ulp by (simp add: abs_mult)
    also have "(of_int (round_half_even (x / ulp)) - x / ulp) * ulp = to_grid x - x"
      using ulp by (simp add: grid left_diff_distrib)
    finally show ?thesis .
  qed
  ultimately have half: "\<bar>to_grid x - x\<bar> \<le> pow2 (e - 53)"
    using pow2_half [of e] by (simp add: ulp_def)
  have pos: "0 < \<bar>x\<bar>" using assms by simp
  show ?thesis
  proof (cases "- 1022 \<le> binade \<bar>x\<bar>")
    case True
    then have "e = binade \<bar>x\<bar>" by (simp add: e_def)
    then have "pow2 e \<le> \<bar>x\<bar>" using binade_bounds [OF pos] by simp
    then have "pow2 (e - 53) \<le> \<bar>x\<bar> / 2 ^ 53"
      by (simp add: pow2_53 divide_right_mono)
    with half pow2_pos [of "- 1075"] show ?thesis by linarith
  next
    case False
    then have "e = - 1022" by (simp add: e_def)
    with half show ?thesis by simp
  qed
qed

lemma tiny: "pow2 (- 1075) \<le> 1 / 2 ^ 60"
proof -
  have "pow2 (- 1075) \<le> pow2 (- 60)" by (rule pow2_mono) simp
  then show ?thesis by (simp add: pow2_def)
qed

lemma pow2_1023: "pow2 1023 = 2 ^ 23 * pow2 1000" "1 \<le> pow2 1000" "pow2 1024 = 2 * pow2 1023"
proof -
  show "pow2 1023 = 2 ^ 23 * pow2 1000"
    using pow2_add [of 23 1000] by (simp add: pow2_def)
  show "1 \<le> pow2 1000"
    using pow2_mono [of 0 1000] by (simp add: pow2_def)
  show "pow2 1024 = 2 * pow2 1023"
    using pow2_add [of 1 1023] by (simp add: pow2_def)
qed

lemma nearest_double_finite:
  assumes "x \<noteq> 0" "\<bar>x\<bar> \<le> pow2 1023"
  shows "nearest_double x = Fin (to_grid x)"
proof -
  from to_grid_error [OF assms(1)]
  have err: "\<bar>to_grid x - x\<bar> \<le> \<bar>x\<bar> / 2 ^ 53 + pow2 (- 1075)" .
  have "\<bar>x\<bar> / 2 ^ 53 \<le> \<bar>x\<bar> / 2" by simp
  with err tiny assms(2) pow2_1023 have "\<bar>to_grid x\<bar> < pow2 1024"
    by (simp; linarith)
  then have "\<not> pow2 1024 \<le> to_grid x" "\<not> to_grid x \<le> - pow2 1024" by linarith+
  with assms(1) show ?thesis by (simp add: nearest_double_def)
qed

lemma nearest_double_error:
  assumes "\<bar>x\<bar> \<le> pow2 1023"
  shows "\<exists>y. nearest_double x = Fin y \<and> \<bar>y - x\<bar> \<le> \<bar>x\<bar> / 2 ^ 53 + pow2 (- 1075)"
proof (cases "x = 0")
  case True
  then show ?thesis using pow2_pos [of "- 1075"] by (simp add: nearest_double_def less_imp_le)
next
  case False
  with assms to_grid_error [OF False] show ?thesis by (simp add: nearest_double_finite)
qed

lemma binade_unique:
  assumes "pow2 e \<le> x" "x < pow2 (e + 1)"
  shows "binade x = e"
proof -
  from assms(1) pow2_pos [of e] have "0 < x" by linarith
  from binade_bounds [OF this]
  have b: "pow2 (binade x) \<le> x" "x < pow2 (binade x + 1)" by simp_all
  have "\<not> binade x < e"
  proof
    assume "binade x < e"
    then have "pow2 (binade x + 1) \<le> pow2 e" by (intro pow2_mono) simp
    with b(2) assms(1) show False by linarith
  qed
  moreover have "\<not> e < binade x"
  proof
    assume "e < binade x"
    then have "pow2 (e + 1) \<le> pow2 (binade x)" by (intro pow2_mono) simp
    with b(1) assms(2) show False by linarith
  qed
  ultimately show ?thesis by linarith
qed

text \<open>The double of a number of a known binade.\<close>

lemma nearest_double_eval:
  assumes "pow2 e \<le> x" "x < pow2 (e + 1)" "- 1022 \<le> e" "e \<le> 1022"
    and "\<bar>x / pow2 (e - 52) - of_int r\<bar> < 1 / 2
         \<or> (\<bar>x / pow2 (e - 52) - of_int r\<bar> = 1 / 2 \<and> even r)"
  shows "nearest_double x = Fin (of_int r * pow2 (e - 52))"
proof -
  from assms(1) pow2_pos [of e] have pos: "0 < x" by linarith
  then have ax: "\<bar>x\<bar> = x" by simp
  have "binade \<bar>x\<bar> = e" unfolding ax using assms(1,2) by (rule binade_unique)
  moreover have "round_half_even (x / pow2 (e - 52)) = r"
    using assms(5) by (rule round_half_even_eval)
  ultimately have grid: "to_grid x = of_int r * pow2 (e - 52)"
    using assms(3) by (simp add: to_grid_def Let_def max_def)
  from assms(4) have "pow2 (e + 1) \<le> pow2 1023" by (intro pow2_mono) simp
  with assms(2) pos have "\<bar>x\<bar> \<le> pow2 1023" by simp
  with pos show ?thesis by (simp add: nearest_double_finite grid)
qed

lemma round4_eval:
  assumes "\<bar>x * 10000 - of_int r\<bar> < 1 / 2 \<or> (\<bar>x * 10000 - of_int r\<bar> = 1 / 2 \<and> even r)"
  shows "round4 x = of_int r / 10000"
  using round_half_even_eval [OF assms] by (simp add: round4_def)

lemma unit_price_eval:
  assumes "nearest_double x = Fin a" "nearest_double (a / of_int q) = Fin b" "round4 b = g"
  shows "py_round4 (true_divide (nearest_double x) q) = nearest_double g"
  using assms by simp

lemma div_ge1: "0 \<le> a \<Longrightarrow> 1 \<le> c \<Longrightarrow> a / c \<le> (a::rat)"
  using divide_left_mono [of 1 c a] by simp

lemma unit_price_bound:
  assumes x: "0 < x" "x \<le> pow2 1000" and q: "1 \<le> q"
  shows "\<exists>n u. py_round4 (true_divide (nearest_double x) q) = Fin u
      \<and> nearest_double (of_int n / 10000) = Fin u
      \<and> \<bar>u - of_int n / 10000\<bar> \<le> \<bar>of_int n / 10000\<bar> / 2 ^ 53 + pow2 (- 1075)
      \<and> \<bar>of_int n / 10000 - x / of_int q\<bar> \<le> 1 / 20000 + (x + 1) / 2 ^ 50"
proof -
  let ?t = "pow2 (- 1075)"
  have t: "0 < ?t" "?t \<le> 1 / 2 ^ 60" using pow2_pos tiny by simp_all
  have big: "pow2 1023 = 2 ^ 23 * pow2 1000" "1 \<le> pow2 1000" using pow2_1023 by simp_all
  from x big have "\<bar>x\<bar> \<le> pow2 1023" by (simp; linarith)
  from nearest_double_error [OF this] obtain d where
    d: "nearest_double x = Fin d" "\<bar>d - x\<bar> \<le> \<bar>x\<bar> / 2 ^ 53 + ?t" by blast
  have qr: "(1::rat) \<le> of_int q" using q by simp
  let ?y = "d / of_int q"
  have dx: "\<bar>d\<bar> \<le> 2 * x + 1" using d(2) x(1) t by (simp; linarith)
  have yd: "\<bar>?y\<bar> \<le> \<bar>d\<bar>"
  proof -
    have "\<bar>?y\<bar> = \<bar>d\<bar> / of_int q" using qr by simp
    also have "\<dots> \<le> \<bar>d\<bar>" using qr by (simp add: div_ge1)
    finally show ?thesis .
  qed
  have yx: "\<bar>?y - x / of_int q\<bar> \<le> \<bar>d - x\<bar>"
  proof -
    have "?y - x / of_int q = (d - x) / of_int q" by (simp add: diff_divide_distrib)
    then have "\<bar>?y - x / of_int q\<bar> = \<bar>d - x\<bar> / of_int q" using qr by simp
    also have "\<dots> \<le> \<bar>d - x\<bar>" using qr by (simp add: div_ge1)
    finally show ?thesis .
  qed
  from yd dx x big have "\<bar>?y\<bar> \<le> pow2 1023" by (simp; linarith)
  from nearest_double_error [OF this] obtain f where
    f: "nearest_double ?y = Fin f" "\<bar>f - ?y\<bar> \<le> \<bar>?y\<bar> / 2 ^ 53 + ?t" by blast
  define n where "n = round_half_even (f * 10000)"
  let ?g = "of_int n / (10000::rat)"
  have g: "round4 f = ?g" by (simp add: round4_def n_def)
  have gf: "\<bar>?g - f\<bar> \<le> 1 / 20000" using round4_near [of f] by (simp add: g)
  have fy: "\<bar>f\<bar> \<le> 2 * \<bar>?y\<bar> + 1" using f(2) t by (simp; linarith)
  with gf yd dx x big have "\<bar>?g\<bar> \<le> pow2 1023" by (simp; linarith)
  from nearest_double_error [OF this] obtain u where
    u: "nearest_double ?g = Fin u" "\<bar>u - ?g\<bar> \<le> \<bar>?g\<bar> / 2 ^ 53 + ?t" by blast
  have eq: "py_round4 (true_divide (nearest_double x) q) = Fin u"
    by (simp add: d(1) f(1) g u(1))
  have "\<bar>?g - x / of_int q\<bar> \<le> \<bar>?g - f\<bar> + \<bar>f - ?y\<bar> + \<bar>?y - x / of_int q\<bar>"
    by linarith
  also have "\<dots> \<le> 1 / 20000 + (\<bar>?y\<bar> / 2 ^ 53 + ?t) + (\<bar>x\<bar> / 2 ^ 53 + ?t)"
    using gf f(2) yx d(2) by linarith
  also have "\<dots> \<le> 1 / 20000 + (x + 1) / 2 ^ 50"
    using yd dx x(1) t by (simp; linarith)
  finally have "\<bar>?g - x / of_int q\<bar> \<le> 1 / 20000 + (x + 1) / 2 ^ 50" .
  with eq u show ?thesis by blast
qed

lemma double_50_1: "nearest_double 50 = Fin 50"
  using nearest_double_eval [of "5" "50" 7036874417766400]
  by (simp add: pow2_def)

lemma quotient_50_100: "nearest_double (50 / of_int 100) = Fin (1 / 2)"
  using nearest_double_eval [of "- 1" "50 / of_int 100" 4503599627370496]
  by (simp add: pow2_def)

lemma unit_price_50_100:
  "py_round4 (true_divide (nearest_double 50) 100) = nearest_double (1 / 2)"
proof (rule unit_price_eval)
  show "nearest_double 50 = Fin 50" by (rule double_50_1)
  show "nearest_double (50 / of_int 100) = Fin (1 / 2)" by (rule quotient_50_100)
  show "round4 (1 / 2) = 1 / 2" using round4_eval [of "1 / 2" 5000] by simp
qed

lemma double_1_2: "nearest_double (1 / 2) = Fin (1 / 2)"
  using nearest_double_eval [of "- 1" "1 / 2" 4503599627370496]
  by (simp add: pow2_def)

lemma double_110_1: "nearest_double 110 = Fin 110"
  using nearest_double_eval [of "6" "110" 7740561859543040]
  by (simp add: pow2_def)

lemma quotient_110_250: "nearest_double (110 / of_int 250) = Fin (7926335344172073 / 18014398509481984)"
  using nearest_double_eval [of "- 2" "110 / of_int 250" 7926335344172073]
  by (simp add: pow2_def)

lemma unit_price_110_250:
  "py_round4 (true_divide (nearest_double 110) 250) = nearest_double (11 / 25)"
proof (rule unit_price_eval)
  show "nearest_double 110 = Fin 110" by (rule double_110_1)
  show "nearest_double (110 / of_int 250) = Fin (7926335344172073 / 18014398509481984)" by (rule quotient_110_250)
  show "round4 (7926335344172073 / 18014398509481984) = 11 / 25" using round4_eval [of "7926335344172073 / 18014398509481984" 4400] by simp
qed

lemma double_11_25: "nearest_double (11 / 25) = Fin (7926335344172073 / 18014398509481984)"
  using nearest_double_eval [of "- 2" "11 / 25" 7926335344172073]
  by (simp add: pow2_def)

lemma double_1999_100: "nearest_double (1999 / 100) = Fin (5626684784446013 / 281474976710656)"
  using nearest_double_eval [of "4" "1999 / 100" 5626684784446013]
  by (simp add: pow2_def)

lemma quotient_19_99_200: "nearest_double ((5626684784446013 / 281474976710656) / of_int 200) = Fin (7202156524090897 / 72057594037927936)"
  using nearest_double_eval [of "- 4" "(5626684784446013 / 281474976710656) / of_int 200" 7202156524090897]
  by (simp add: pow2_def)

lemma unit_price_19_99_200:
  "py_round4 (true_divide (nearest_double (1999 / 100)) 200) = nearest_double (999 / 10000)"
proof (rule unit_price_eval)
  show "nearest_double (1999 / 100) = Fin (5626684784446013 / 281474976710656)" by (rule double_1999_100)
  show "nearest_double ((5626684784446013 / 281474976710656) / of_int 200) = Fin (7202156524090897 / 72057594037927936)" by (rule quotient_19_99_200)
  show "round4 (7202156524090897 / 72057594037927936) = 999 / 10000" using round4_eval [of "7202156524090897 / 72057594037927936" 999] by simp
qed

lemma double_999_10000: "nearest_double (999 / 10000) = Fin (7198553644389001 / 72057594037927936)"
  using nearest_double_eval [of "- 4" "999 / 10000" 7198553644389001]
  by (simp add: pow2_def)

lemma double_1_4: "nearest_double (1 / 4) = Fin (1 / 4)"
  using nearest_double_eval [of "- 2" "1 / 4" 4503599627370496]
  by (simp add: pow2_def)

lemma quotient_0_25_1000: "nearest_double ((1 / 4) / of_int 1000) = Fin (1152921504606847 / 4611686018427387904)"
  using nearest_double_eval [of "- 12" "(1 / 4) / of_int 1000" 4611686018427388]
  by (simp add: pow2_def)

lemma unit_price_0_25_1000:
  "py_round4 (true_divide (nearest_double (1 / 4)) 1000) = nearest_double (3 / 10000)"
proof (rule unit_price_eval)
  show "nearest_double (1 / 4) = Fin (1 / 4)" by (rule double_1_4)
  show "nearest_double ((1 / 4) / of_int 1000) = Fin (1152921504606847 / 4611686018427387904)" by (rule quotient_0_25_1000)
  show "round4 (1152921504606847 / 4611686018427387904) = 3 / 10000" using round4_eval [of "1152921504606847 / 4611686018427387904" 3] by simp
qed

lemma double_3_10000: "nearest_double (3 / 10000) = Fin (5534023222112865 / 18446744073709551616)"
  using nearest_double_eval [of "- 12" "3 / 10000" 5534023222112865]
  by (simp add: pow2_def)

lemma double_25_2: "nearest_double (25 / 2) = Fin (25 / 2)"
  using nearest_double_eval [of "3" "25 / 2" 7036874417766400]
  by (simp add: pow2_def)

lemma quotient_12_50_2000: "nearest_double ((25 / 2) / of_int 2000) = Fin (3602879701896397 / 576460752303423488)"
  using nearest_double_eval [of "- 8" "(25 / 2) / of_int 2000" 7205759403792794]
  by (simp add: pow2_def)

lemma unit_price_12_50_2000:
  "py_round4 (true_divide (nearest_double (25 / 2)) 2000) = nearest_double (63 / 10000)"
proof (rule unit_price_eval)
  show "nearest_double (25 / 2) = Fin (25 / 2)" by (rule double_25_2)
  show "nearest_double ((25 / 2) / of_int 2000) = Fin (3602879701896397 / 576460752303423488)" by (rule quotient_12_50_2000)
  show "round4 (3602879701896397 / 576460752303423488) = 63 / 10000" using round4_eval [of "3602879701896397 / 576460752303423488" 63] by simp
qed

lemma double_63_10000: "nearest_double (63 / 10000) = Fin (226981421219473 / 36028797018963968)"
  using nearest_double_eval [of "- 8" "63 / 10000" 7263405479023136]
  by (simp add: pow2_def)

section \<open>The pricing extractor: proofs\<close>

lemma collect_tiers_first_seen:
  "collect_tiers ps seen acc = acc @ map make_tier (first_seen ps seen)"
  by (induction ps arbitrary: seen acc) simp_all

lemma first_seen_sound:
  "p \<in> set (first_seen ps seen) \<Longrightarrow>
     truthy (c_quantity p) \<and> c_quantity p \<notin> seen
     \<and> find (\<lambda>x. c_quantity x = c_quantity p) ps = Some p"
proof (induction ps arbitrary: seen)
  case Nil
  then show ?case by simp
next
  case (Cons a ps)
  show ?case
  proof (cases "truthy (c_quantity a) \<and> c_quantity a \<notin> seen")
    case True
    with Cons.prems have "p = a \<or> p \<in> set (first_seen ps (insert (c_quantity a) seen))"
      by simp
    then show ?thesis
    proof
      assume "p = a"
      with True show ?thesis by simp
    next
      assume "p \<in> set (first_seen ps (insert (c_quantity a) seen))"
      from Cons.IH [OF this] show ?thesis by auto
    qed
  next
    case False
    with Cons.prems have "p \<in> set (first_seen ps seen)"
      by auto
    from Cons.IH [OF this] False show ?thesis by auto
  qed
qed

lemma first_seen_subset: "set (first_seen ps seen) \<subseteq> set ps"
  by (induction ps arbitrary: seen) auto

lemma first_seen_distinct: "distinct (map c_quantity (first_seen ps seen))"
proof (induction ps arbitrary: seen)
  case Nil
  then show ?case by simp
next
  case (Cons a ps)
  have "c_quantity a \<notin> c_quantity ` set (first_seen ps (insert (c_quantity a) seen))"
    using first_seen_sound by fastforce
  with Cons.IH show ?case by simp
qed

lemma first_seen_complete:
  "p \<in> set ps \<Longrightarrow> truthy (c_quantity p) \<Longrightarrow> c_quantity p \<notin> seen \<Longrightarrow>
     c_quantity p \<in> c_quantity ` set (first_seen ps seen)"
proof (induction ps arbitrary: seen)
  case Nil
  then show ?case by simp
next
  case (Cons a ps)
  show ?case
  proof (cases "c_quantity a = c_quantity p")
    case True
    with Cons.prems show ?thesis by simp
  next
    case False
    with Cons.prems have "p \<in> set ps" by auto
    from Cons.IH [OF this Cons.prems(2)] False Cons.prems(3) show ?thesis
      by (cases "truthy (c_quantity a) \<and> c_quantity a \<notin> seen") auto
  qed
qed

lemma quantity_make_tier: "quantity (make_tier p) = c_quantity p"
  by (simp add: make_tier_def)

lemma total_make_tier: "amount (total_price (make_tier p)) = c_total_price p"
  by (simp add: make_tier_def)

lemma unit_make_tier:
  "amount (unit_price (make_tier p)) = unit_price_of (c_total_price p) (c_quantity p)"
  by (simp add: make_tier_def)

lemma set_tiers_of_pricing_data:
  "set (tiers_of_pricing_data cands) = make_tier ` set (first_seen cands {})"
  by (simp add: tiers_of_pricing_data_def collect_tiers_first_seen)

lemma distinct_map_sort_key:
  "distinct (map f (sort_key f xs)) = distinct (map f xs)"
  by (induction xs) (simp_all add: distinct_insort_key)

lemma sort_quantity_truthy:
  "truthy (quantity t) \<Longrightarrow> quantity t = Some (sort_quantity t)"
  by (cases "quantity t") simp_all

lemma first_seen_quantities:
  "map c_quantity (first_seen ps seen)
     = map Some (map sort_quantity (map make_tier (first_seen ps seen)))"
proof -
  have "c_quantity p = Some (sort_quantity (make_tier p))" if "p \<in> set (first_seen ps seen)" for p
  proof -
    from that have "truthy (c_quantity p)" using first_seen_sound by blast
    then show ?thesis
      by (cases "c_quantity p") (simp_all add: quantity_make_tier)
  qed
  then show ?thesis by simp
qed

lemma strictly_sorted_tiers:
  "sorted_wrt (<) (map sort_quantity (tiers_of_pricing_data cands))"
proof -
  let ?fs = "first_seen cands {}"
  have "distinct (map Some (map sort_quantity (map make_tier ?fs)))"
    using first_seen_distinct [of cands "{}"] first_seen_quantities [of cands "{}"]
    by (simp only:)
  then have "distinct (map sort_quantity (map make_tier ?fs))"
    by (simp only: distinct_map)
  then have "distinct (map sort_quantity (tiers_of_pricing_data cands))"
    by (simp add: tiers_of_pricing_data_def collect_tiers_first_seen distinct_map_sort_key
          del: sort_quantity.simps)
  moreover have "sorted (map sort_quantity (tiers_of_pricing_data cands))"
    unfolding tiers_of_pricing_data_def by (rule sorted_sort_key)
  ultimately show ?thesis by (simp only: strict_sorted_iff)
qed

lemma no_null_quantity:
  "t \<in> set (tiers_of_pricing_data cands) \<Longrightarrow> truthy (quantity t)"
  using first_seen_sound by (auto simp: set_tiers_of_pricing_data quantity_make_tier)

lemma tier_origin:
  assumes "t \<in> set (tiers_of_pricing_data cands)"
  obtains p where "p \<in> set cands" "t = make_tier p" "truthy (c_quantity p)"
    "find (\<lambda>x. c_quantity x = c_quantity p) cands = Some p"
proof -
  from assms obtain p where p: "p \<in> set (first_seen cands {})" "t = make_tier p"
    by (auto simp: set_tiers_of_pricing_data)
  moreover from p(1) have "p \<in> set cands" using first_seen_subset by blast
  moreover from p(1) have "truthy (c_quantity p)"
    "find (\<lambda>x. c_quantity x = c_quantity p) cands = Some p"
    using first_seen_sound by blast+
  ultimately show ?thesis using that by blast
qed

text \<open>
  Claim C2. For every list of candidate pairs the tier list is strictly ascending in
  quantity (so it is sorted and holds at most one tier per quantity), every tier carries
  the total price of the first candidate with its quantity, and every candidate with a
  true quantity is represented by a tier.
\<close>

theorem pricing_dedup_sorted:
  "sorted_wrt (<) (map sort_quantity (tiers_of_pricing_data cands))
   \<and> (\<forall>t \<in> set (tiers_of_pricing_data cands).
        \<exists>q p. quantity t = Some q \<and> sort_quantity t = q
          \<and> find (\<lambda>x. c_quantity x = Some q) cands = Some p
          \<and> amount (total_price t) = c_total_price p)
   \<and> (\<forall>p \<in> set cands. truthy (c_quantity p) \<longrightarrow>
        c_quantity p \<in> quantity ` set (tiers_of_pricing_data cands))"
proof (intro conjI ballI impI)
  show "sorted_wrt (<) (map sort_quantity (tiers_of_pricing_data cands))"
    by (rule strictly_sorted_tiers)
next
  fix t assume "t \<in> set (tiers_of_pricing_data cands)"
  then obtain p where p: "t = make_tier p" "truthy (c_quantity p)"
    "find (\<lambda>x. c_quantity x = c_quantity p) cands = Some p"
    by (rule tier_origin)
  from p(2) obtain q where q: "c_quantity p = Some q" by (cases "c_quantity p") simp_all
  with p show "\<exists>q p. quantity t = Some q \<and> sort_quantity t = q
          \<and> find (\<lambda>x. c_quantity x = Some q) cands = Some p
          \<and> amount (total_price t) = c_total_price p"
    by (simp add: quantity_make_tier total_make_tier)
next
  fix p assume "p \<in> set cands" "truthy (c_quantity p)"
  then have "c_quantity p \<in> c_quantity ` set (first_seen cands {})"
    by (simp add: first_seen_complete)
  then show "c_quantity p \<in> quantity ` set (tiers_of_pricing_data cands)"
    by (auto simp: set_tiers_of_pricing_data quantity_make_tier image_iff)
qed

lemma example_rows_tiers:
  "tiers_of_pricing_data example_rows =
     [\<lparr>quantity = Some 100,
       unit_price = \<lparr>amount = Some (nearest_double (1 / 2)), currency = ''USD''\<rparr>,
       total_price = \<lparr>amount = Num 50, currency = ''USD''\<rparr>\<rparr>,
      \<lparr>quantity = Some 250,
       unit_price = \<lparr>amount = Some (nearest_double (11 / 25)), currency = ''USD''\<rparr>,
       total_price = \<lparr>amount = Num 110, currency = ''USD''\<rparr>\<rparr>]"
  by (simp add: example_rows_def tiers_of_pricing_data_def make_tier_def
        unit_price_50_100 unit_price_110_250)

text \<open>
  The rows \<open>[(100, 50), (100, 999), (250, 110)]\<close> give the tiers \<open>100\<close> (amount
  \<open>50\<close>) and \<open>250\<close>, in that order.
\<close>

theorem pricing_dedup_sorted_witness:
  "map quantity (tiers_of_pricing_data example_rows) = [Some 100, Some 250]
   \<and> map (\<lambda>t. amount (total_price t)) (tiers_of_pricing_data example_rows) = [Num 50, Num 110]
   \<and> sorted_wrt (<) (map sort_quantity (tiers_of_pricing_data example_rows))"
  using pricing_dedup_sorted [of example_rows] by (simp add: example_rows_tiers)

lemma admissible_in_bounds:
  "admissible q pr \<Longrightarrow> in_bounds \<lparr>c_quantity = Some q, c_total_price = pr\<rparr>"
  by (cases pr) (simp_all add: admissible_def in_bounds_def)

lemma row_candidates_bounds:
  assumes "c \<in> set (row_candidates text)"
  shows "in_bounds c"
proof (cases "row_qty_match text")
  case None
  with assms show ?thesis by (simp add: row_candidates_def)
next
  case qm: (Some qm)
  show ?thesis
  proof (cases "price_match text")
    case None
    with assms qm show ?thesis by (simp add: row_candidates_def)
  next
    case pm: (Some pm)
    let ?qty = "parse_int (remove_commas qm)" and ?price = "parse_float (remove_commas pm)"
    from qm pm have eq: "row_candidates text =
        (if admissible ?qty ?price then [\<lparr>c_quantity = Some ?qty, c_total_price = ?price\<rparr>] else [])"
      by (simp add: row_candidates_def Let_def)
    show ?thesis
    proof (cases "admissible ?qty ?price")
      case True
      with assms eq have "c = \<lparr>c_quantity = Some ?qty, c_total_price = ?price\<rparr>" by simp
      with True show ?thesis by (simp add: admissible_in_bounds)
    next
      case False
      with assms eq show ?thesis by simp
    qed
  qed
qed

lemma cell_pair_candidates_bounds:
  assumes "c \<in> set (cell_pair_candidates a b)"
  shows "in_bounds c"
proof (cases "cell_qty_match a")
  case None
  then have "cell_pair_candidates a b = []"
    unfolding cell_pair_candidates_def by simp
  with assms show ?thesis by simp
next
  case qm: (Some qm)
  show ?thesis
  proof (cases "price_match b")
    case None
    with qm have "cell_pair_candidates a b = []"
      unfolding cell_pair_candidates_def by simp
    with assms show ?thesis by simp
  next
    case pm: (Some pm)
    let ?qty = "parse_int qm" and ?price = "parse_float (remove_commas pm)"
    let ?c = "\<lparr>c_quantity = Some ?qty, c_total_price = ?price\<rparr>"
    from qm pm have eq: "cell_pair_candidates a b =
        (if a \<noteq> [] \<and> b \<noteq> [] \<and> admissible ?qty ?price then [?c] else [])"
      unfolding cell_pair_candidates_def by (simp add: Let_def)
    show ?thesis
    proof (cases "a \<noteq> [] \<and> b \<noteq> [] \<and> admissible ?qty ?price")
      case True
      with eq have "cell_pair_candidates a b = [?c]" by simp
      with assms have "c = ?c" by simp
      with True show ?thesis by (simp add: admissible_in_bounds)
    next
      case False
      with eq have "cell_pair_candidates a b = []" by simp
      with assms show ?thesis by simp
    qed
  qed
qed

lemma table_candidates_bounds: "c \<in> set (table_candidates cells) \<Longrightarrow> in_bounds c"
  by (induction cells rule: table_candidates.induct)
     (auto simp: cell_pair_candidates_bounds)

lemma main_price_candidates_null:
  "c \<in> set (main_price_candidates mp) \<Longrightarrow> c_quantity c = None"
  by (auto simp: main_price_candidates_def split: option.splits)

lemma pricing_script_bounds:
  "c \<in> set (pricing_script d) \<Longrightarrow> c_quantity c = None \<or> in_bounds c"
  by (auto simp: pricing_script_def row_candidates_bounds table_candidates_bounds
      main_price_candidates_null)

text \<open>
  Claim C3. Every candidate pair that one of the two scanning passes admits has a quantity
  from \<open>50\<close> up to but excluding \<open>100000\<close> and a positive price, and every tier
  that the extractor returns is within these bounds.
\<close>

theorem pricing_bounds:
  "(\<forall>c \<in> set (row_candidates text) \<union> set (table_candidates cells).
       \<exists>q x. c_quantity c = Some q \<and> 50 \<le> q \<and> q < 100000 \<and> c_total_price c = Num x \<and> 0 < x)
   \<and> (\<forall>t \<in> set (extract_pricing pg).
       \<exists>q x. quantity t = Some q \<and> 50 \<le> q \<and> q < 100000
          \<and> amount (total_price t) = Num x \<and> 0 < x)"
proof (intro conjI ballI)
  fix c assume "c \<in> set (row_candidates text) \<union> set (table_candidates cells)"
  then have "in_bounds c"
    using row_candidates_bounds table_candidates_bounds by blast
  then show "\<exists>q x. c_quantity c = Some q \<and> 50 \<le> q \<and> q < 100000 \<and> c_total_price c = Num x \<and> 0 < x"
    by (simp add: in_bounds_def)
next
  fix t assume t: "t \<in> set (extract_pricing pg)"
  then have "t \<in> set (tiers_of_pricing_data (pricing_script (pricing_part pg)))"
    by (simp add: extract_pricing_def split: if_splits)
  then obtain p where p: "p \<in> set (pricing_script (pricing_part pg))" "t = make_tier p"
    "truthy (c_quantity p)"
    by (rule tier_origin)
  from p(1) p(3) have "in_bounds p"
    using pricing_script_bounds by fastforce
  with p(2) show "\<exists>q x. quantity t = Some q \<and> 50 \<le> q \<and> q < 100000
          \<and> amount (total_price t) = Num x \<and> 0 < x"
    by (simp add: in_bounds_def quantity_make_tier total_make_tier)
qed

lemmas text_eval =
  is_digit_def is_price_char_def digit_val_def parse_int_def parse_float_def remove_commas_def
  cell_qty_match_def admissible_def

lemma bounds_page_script:
  "pricing_script (pricing_part bounds_page) =
     [\<lparr>c_quantity = Some 100, c_total_price = Num 50\<rparr>,
      \<lparr>c_quantity = Some 500, c_total_price = Num 200\<rparr>,
      \<lparr>c_quantity = None, c_total_price = Num 50\<rparr>]"
  by (simp add: bounds_page_def pricing_script_def row_candidates_def cell_pair_candidates_def
        main_price_candidates_def text_eval)

text \<open>
  A page with the quantities \<open>10\<close> and \<open>150000\<close>, a zero price and a cell
  \<open>20\<close>: only the tiers \<open>100\<close> and \<open>500\<close> are returned.
\<close>

theorem pricing_bounds_witness:
  "map quantity (extract_pricing bounds_page) = [Some 100, Some 500]
   \<and> map (\<lambda>t. amount (total_price t)) (extract_pricing bounds_page) = [Num 50, Num 200]
   \<and> row_candidates ''10 units $5.00'' = []
   \<and> row_candidates ''150000 units $900.00'' = []
   \<and> row_candidates ''250 units $0.00'' = []"
proof -
  have "\<not> evaluate_fails bounds_page" by (simp add: bounds_page_def)
  then have "extract_pricing bounds_page =
      tiers_of_pricing_data (pricing_script (pricing_part bounds_page))"
    by (simp add: extract_pricing_def)
  then have "map quantity (extract_pricing bounds_page) = [Some 100, Some 500]"
    "map (\<lambda>t. amount (total_price t)) (extract_pricing bounds_page) = [Num 50, Num 200]"
    by (simp_all add: bounds_page_script tiers_of_pricing_data_def make_tier_def)
  moreover have "row_candidates ''10 units $5.00'' = []"
    "row_candidates ''150000 units $900.00'' = []"
    "row_candidates ''250 units $0.00'' = []"
    by (simp_all add: row_candidates_def text_eval)
  ultimately show ?thesis
    using pricing_bounds [of "''100 units $50.00''" "[''500'', ''$200.00'', ''20'']" bounds_page]
    by simp
qed

lemma extract_pricing_origin:
  assumes "t \<in> set (extract_pricing pg)"
  obtains p where "t = make_tier p" "in_bounds p"
proof -
  from assms have "t \<in> set (tiers_of_pricing_data (pricing_script (pricing_part pg)))"
    by (simp add: extract_pricing_def split: if_splits)
  then obtain p where p: "p \<in> set (pricing_script (pricing_part pg))" "t = make_tier p"
    "truthy (c_quantity p)"
    by (rule tier_origin)
  from p(1) p(3) have "in_bounds p"
    using pricing_script_bounds by fastforce
  with p(2) show ?thesis by (rule that)
qed

text \<open>
  Claim C6. A tier that the extractor returns, with quantity \<open>q\<close> and the total price
  read from the literal \<open>x\<close>, has a non-zero quantity, and its unit price is the float
  that line 301 computes: the double of \<open>x\<close> divided by \<open>q\<close> in binary64, rounded to
  four decimals by \<open>round\<close>. Unless the price is beyond \<open>2 ^ 1000\<close>, that float is
  finite: it is the double nearest to a multiple \<open>n / 10000\<close> of \<open>1/10000\<close>, and this
  multiple is at distance at most \<open>1/20000 + (x + 1) / 2 ^ 50\<close> from \<open>x / q\<close>, that
  is, a nearest multiple up to the error of the floating-point division.
\<close>

theorem unit_price_rounded:
  assumes "t \<in> set (extract_pricing pg)"
    and "quantity t = Some q"
    and "amount (total_price t) = Num x"
  shows "q \<noteq> 0
    \<and> amount (unit_price t) = Some (py_round4 (true_divide (nearest_double x) q))
    \<and> (x \<le> pow2 1000 \<longrightarrow>
         (\<exists>n u. amount (unit_price t) = Some (Fin u)
            \<and> nearest_double (of_int n / 10000) = Fin u
            \<and> \<bar>u - of_int n / 10000\<bar> \<le> \<bar>of_int n / 10000\<bar> / 2 ^ 53 + pow2 (- 1075)
            \<and> \<bar>of_int n / 10000 - x / of_int q\<bar> \<le> 1 / 20000 + (x + 1) / 2 ^ 50))"
proof -
  from assms(1) obtain p where p: "t = make_tier p" "in_bounds p"
    by (rule extract_pricing_origin)
  from p assms(2) assms(3) have q: "c_quantity p = Some q" "50 \<le> q"
    and x: "c_total_price p = Num x" "0 < x"
    by (auto simp: in_bounds_def quantity_make_tier total_make_tier)
  from q x p(1) have eq: "amount (unit_price t) = Some (py_round4 (true_divide (nearest_double x) q))"
    by (simp add: unit_make_tier)
  have "x \<le> pow2 1000 \<longrightarrow>
         (\<exists>n u. amount (unit_price t) = Some (Fin u)
            \<and> nearest_double (of_int n / 10000) = Fin u
            \<and> \<bar>u - of_int n / 10000\<bar> \<le> \<bar>of_int n / 10000\<bar> / 2 ^ 53 + pow2 (- 1075)
            \<and> \<bar>of_int n / 10000 - x / of_int q\<bar> \<le> 1 / 20000 + (x + 1) / 2 ^ 50)"
  proof
    assume "x \<le> pow2 1000"
    with x(2) q(2) have "\<exists>n u. py_round4 (true_divide (nearest_double x) q) = Fin u
      \<and> nearest_double (of_int n / 10000) = Fin u
      \<and> \<bar>u - of_int n / 10000\<bar> \<le> \<bar>of_int n / 10000\<bar> / 2 ^ 53 + pow2 (- 1075)
      \<and> \<bar>of_int n / 10000 - x / of_int q\<bar> \<le> 1 / 20000 + (x + 1) / 2 ^ 50"
      by (intro unit_price_bound) simp_all
    with eq show "\<exists>n u. amount (unit_price t) = Some (Fin u)
            \<and> nearest_double (of_int n / 10000) = Fin u
            \<and> \<bar>u - of_int n / 10000\<bar> \<le> \<bar>of_int n / 10000\<bar> / 2 ^ 53 + pow2 (- 1075)
            \<and> \<bar>of_int n / 10000 - x / of_int q\<bar> \<le> 1 / 20000 + (x + 1) / 2 ^ 50"
      by simp
  qed
  with q(2) eq show ?thesis by simp
qed

lemma unit_price_page_script:
  "pricing_script (pricing_part unit_price_page) =
     [\<lparr>c_quantity = Some 250, c_total_price = Num 110\<rparr>,
      \<lparr>c_quantity = Some 1000, c_total_price = Num (1 / 4)\<rparr>,
      \<lparr>c_quantity = Some 200, c_total_price = Num (1999 / 100)\<rparr>,
      \<lparr>c_quantity = Some 2000, c_total_price = Num (25 / 2)\<rparr>]"
  by code_simp

lemma unit_price_page_tiers:
  "extract_pricing unit_price_page =
     [\<lparr>quantity = Some 200,
       unit_price = \<lparr>amount = Some (nearest_double (999 / 10000)), currency = ''USD''\<rparr>,
       total_price = \<lparr>amount = Num (1999 / 100), currency = ''USD''\<rparr>\<rparr>,
      \<lparr>quantity = Some 250,
       unit_price = \<lparr>amount = Some (nearest_double (11 / 25)), currency = ''USD''\<rparr>,
       total_price = \<lparr>amount = Num 110, currency = ''USD''\<rparr>\<rparr>,
      \<lparr>quantity = Some 1000,
       unit_price = \<lparr>amount = Some (nearest_double (3 / 10000)), currency = ''USD''\<rparr>,
       total_price = \<lparr>amount = Num (1 / 4), currency = ''USD''\<rparr>\<rparr>,
      \<lparr>quantity = Some 2000,
       unit_price = \<lparr>amount = Some (nearest_double (63 / 10000)), currency = ''USD''\<rparr>,
       total_price = \<lparr>amount = Num (25 / 2), currency = ''USD''\<rparr>\<rparr>]"
proof -
  have "\<not> evaluate_fails unit_price_page" by (simp add: unit_price_page_def)
  then have "extract_pricing unit_price_page =
      tiers_of_pricing_data (pricing_script (pricing_part unit_price_page))"
    by (simp add: extract_pricing_def)
  then show ?thesis
    by (simp add: unit_price_page_script tiers_of_pricing_data_def make_tier_def
        unit_price_110_250 unit_price_0_25_1000 unit_price_19_99_200 unit_price_12_50_2000)
qed

text \<open>
  Quantity \<open>250\<close> at a total of \<open>110.00\<close> has the unit price \<open>0.44\<close>, that is, the
  double nearest to \<open>0.44\<close>. The quotients \<open>0.25 / 1000\<close>, \<open>19.99 / 200\<close> and
  \<open>12.50 / 2000\<close> are halfway between two multiples of \<open>1/10000\<close>; the unit prices
  are \<open>0.0003\<close>, \<open>0.0999\<close> and \<open>0.0063\<close>, as the doubles of the quotients fall.
\<close>

theorem unit_price_rounded_witness:
  "map quantity (extract_pricing unit_price_page) = [Some 200, Some 250, Some 1000, Some 2000]
   \<and> map (\<lambda>t. amount (total_price t)) (extract_pricing unit_price_page)
       = [Num (1999 / 100), Num 110, Num (1 / 4), Num (25 / 2)]
   \<and> map (\<lambda>t. amount (unit_price t)) (extract_pricing unit_price_page)
       = [Some (Fin (7198553644389001 / 72057594037927936)),
          Some (Fin (7926335344172073 / 18014398509481984)),
          Some (Fin (5534023222112865 / 18446744073709551616)),
          Some (Fin (226981421219473 / 36028797018963968))]
   \<and> nearest_double (999 / 10000) = Fin (7198553644389001 / 72057594037927936)
   \<and> nearest_double (44 / 100) = Fin (7926335344172073 / 18014398509481984)
   \<and> nearest_double (3 / 10000) = Fin (5534023222112865 / 18446744073709551616)
   \<and> nearest_double (63 / 10000) = Fin (226981421219473 / 36028797018963968)
   \<and> py_round4 (true_divide (nearest_double 110) 250) = nearest_double (44 / 100)
   \<and> (110::rat) \<le> pow2 1000
   \<and> (\<exists>n u. nearest_double (44 / 100) = Fin u
          \<and> nearest_double (of_int n / 10000) = Fin u
          \<and> \<bar>of_int n / 10000 - 110 / of_int 250\<bar> \<le> (1 / 20000 + (110 + 1) / 2 ^ 50 :: rat))"
proof -
  let ?t = "\<lparr>quantity = Some 250,
       unit_price = \<lparr>amount = Some (nearest_double (11 / 25)), currency = ''USD''\<rparr>,
       total_price = \<lparr>amount = Num 110, currency = ''USD''\<rparr>\<rparr>"
  have mem: "?t \<in> set (extract_pricing unit_price_page)"
    by (simp add: unit_price_page_tiers)
  have q: "quantity ?t = Some 250" and x: "amount (total_price ?t) = Num 110"
    by simp_all
  have small: "(110::rat) \<le> pow2 1000"
    using pow2_mono [of 7 1000] by (simp add: pow2_def)
  from unit_price_rounded [OF mem q x] small
  obtain n u where eq: "amount (unit_price ?t) = Some (py_round4 (true_divide (nearest_double 110) 250))"
    and nu: "amount (unit_price ?t) = Some (Fin u)" "nearest_double (of_int n / 10000) = Fin u"
      "\<bar>of_int n / 10000 - 110 / of_int 250\<bar> \<le> (1 / 20000 + (110 + 1) / 2 ^ 50 :: rat)"
    by blast
  from eq have "py_round4 (true_divide (nearest_double 110) 250) = nearest_double (11 / 25)"
    by simp
  moreover from nu have "\<exists>n u. nearest_double (11 / 25) = Fin u
          \<and> nearest_double (of_int n / 10000) = Fin u
          \<and> \<bar>of_int n / 10000 - 110 / of_int 250\<bar> \<le> (1 / 20000 + (110 + 1) / 2 ^ 50 :: rat)"
    by auto
  ultimately show ?thesis
    using small
    by (simp add: unit_price_page_tiers double_999_10000 double_11_25 double_3_10000
        double_63_10000)
qed

text \<open>
  Claim C5. On a page whose only price is the current-price element \<open>$25.00\<close> the
  script reports one record without a quantity, and the extractor returns no tier: the
  guard of the loop drops every record whose quantity is not true, although the unit
  price and the sort key are written to handle a missing quantity.
\<close>

theorem current_price_dropped:
  "pricing_script (pricing_part current_price_page) = [\<lparr>c_quantity = None, c_total_price = Num 25\<rparr>]
   \<and> extract_pricing current_price_page = []"
  by (simp add: current_price_page_def extract_pricing_def pricing_script_def
        main_price_candidates_def tiers_of_pricing_data_def text_eval)

section \<open>Option discovery: proofs\<close>

lemma find_identifier_numeric:
  "find_identifier n chain = Some i \<Longrightarrow> is_numeric_id i"
  by (induction n chain rule: find_identifier.induct) (auto split: if_splits)

lemma find_identifier_take:
  "find_identifier n chain =
     map_option node_identifier (find (\<lambda>c. is_numeric_id (node_identifier c)) (take n chain))"
  by (induction n chain rule: find_identifier.induct) auto

lemma element_values_cases:
  "element_values spf el = [] \<or>
   (\<exists>i. find_identifier 3 (self_node el # ancestors el) = Some i
        \<and> element_values spf el = [\<lparr>ov_value = js_trim (inner_text el), ov_id = i\<rparr>])"
proof (cases "find_identifier 3 (self_node el # ancestors el)")
  case None
  then have "element_values spf el = []"
    unfolding element_values_def by (simp add: Let_def)
  then show ?thesis by simp
next
  case (Some i)
  let ?c = "child_count el = 0 \<and> inner_text el \<noteq> []
      \<and> length (js_trim (inner_text el)) > 2 \<and> length (js_trim (inner_text el)) < 100
      \<and> has_keyword spf (js_trim (inner_text el))"
  from Some have "element_values spf el =
      (if ?c then [\<lparr>ov_value = js_trim (inner_text el), ov_id = i\<rparr>] else [])"
    unfolding element_values_def by (simp add: Let_def)
  with Some show ?thesis by (cases ?c) simp_all
qed

lemma element_values_excluded:
  "find_identifier 3 (self_node el # ancestors el) = None \<Longrightarrow> element_values spf el = []"
  using element_values_cases [of spf el] by auto

lemma element_values_numeric:
  "v \<in> set (element_values spf el) \<Longrightarrow> is_numeric_id (ov_id v)"
  using element_values_cases [of spf el] find_identifier_numeric by fastforce

lemma script_numeric:
  "v \<in> set (option_values_script spf els) \<Longrightarrow> is_numeric_id (ov_id v)"
  by (auto simp: option_values_script_def element_values_numeric)

lemma underscore_not_digit: "\<not> is_digit CHR ''_''"
  by (simp add: is_digit_def)

lemma rev_key_digits:
  assumes "is_numeric_id (ov_id v)"
  shows "takeWhile is_digit (rev (seen_key v)) = rev (ov_id v)"
proof -
  have "rev (seen_key v) = rev (ov_id v) @ CHR ''_'' # rev (ov_value v)"
    by (simp add: seen_key_def)
  moreover have "\<forall>c \<in> set (rev (ov_id v)). is_digit c"
    using assms by (simp add: is_numeric_id_def list_all_iff)
  ultimately show ?thesis
    by (simp add: takeWhile_tail underscore_not_digit)
qed

lemma seen_key_inj:
  assumes "is_numeric_id (ov_id v)" "is_numeric_id (ov_id w)" "seen_key v = seen_key w"
  shows "v = w"
proof -
  from assms have "rev (ov_id v) = rev (ov_id w)"
    using rev_key_digits [of v] rev_key_digits [of w] by simp
  then have ids: "ov_id v = ov_id w" by simp
  with assms(3) have "ov_value v = ov_value w"
    by (simp add: seen_key_def)
  with ids show ?thesis by simp
qed

lemma dedup_values_first_values:
  "dedup_values vs seen acc = acc @ first_values vs seen"
  by (induction vs arbitrary: seen acc) simp_all

lemma first_values_subset: "set (first_values vs seen) \<subseteq> set vs"
  by (induction vs arbitrary: seen) auto

lemma first_values_unseen:
  "v \<in> set (first_values vs seen) \<Longrightarrow> seen_key v \<notin> seen"
proof (induction vs arbitrary: seen)
  case Nil
  then show ?case by simp
next
  case (Cons a vs)
  then show ?case
    by (cases "seen_key a \<notin> seen") (auto dest: Cons.IH)
qed

lemma first_values_distinct: "distinct (map seen_key (first_values vs seen))"
proof (induction vs arbitrary: seen)
  case Nil
  then show ?case by simp
next
  case (Cons a vs)
  have "seen_key a \<notin> seen_key ` set (first_values vs (insert (seen_key a) seen))"
    using first_values_unseen by fastforce
  with Cons.IH show ?case by simp
qed

lemma first_values_complete:
  "v \<in> set vs \<Longrightarrow> seen_key v \<notin> seen \<Longrightarrow> seen_key v \<in> seen_key ` set (first_values vs seen)"
proof (induction vs arbitrary: seen)
  case Nil
  then show ?case by simp
next
  case (Cons a vs)
  show ?case
  proof (cases "seen_key a = seen_key v")
    case True
    with Cons.prems show ?thesis by simp
  next
    case False
    with Cons.prems have "v \<in> set vs" by auto
    from Cons.IH [OF this] False Cons.prems(2) show ?thesis
      by (cases "seen_key a \<notin> seen") auto
  qed
qed

lemma dedup_distinct: "distinct (dedup_values vs {} [])"
proof -
  have "distinct (map seen_key (first_values vs {}))" by (rule first_values_distinct)
  then have "distinct (first_values vs {})" by (simp add: distinct_map)
  then show ?thesis by (simp add: dedup_values_first_values)
qed

lemma dedup_set:
  assumes "\<forall>v \<in> set vs. is_numeric_id (ov_id v)"
  shows "set (dedup_values vs {} []) = set vs"
proof
  show "set (dedup_values vs {} []) \<subseteq> set vs"
    using first_values_subset by (simp add: dedup_values_first_values)
next
  show "set vs \<subseteq> set (dedup_values vs {} [])"
  proof
    fix v assume v: "v \<in> set vs"
    then have "seen_key v \<in> seen_key ` set (first_values vs {})"
      by (simp add: first_values_complete)
    then obtain w where w: "w \<in> set (first_values vs {})" "seen_key v = seen_key w"
      by auto
    from w(1) have "w \<in> set vs" using first_values_subset by blast
    with assms v w(2) have "v = w" by (simp add: seen_key_inj)
    with w(1) show "v \<in> set (dedup_values vs {} [])"
      by (simp add: dedup_values_first_values)
  qed
qed

lemma discovered_values_numeric:
  "v \<in> set (discovered_values pg spf) \<Longrightarrow> is_numeric_id (ov_id v)"
proof -
  assume "v \<in> set (discovered_values pg spf)"
  then have "v \<in> set (option_values_script spf (elements pg))"
    using first_values_subset
    by (auto simp: discovered_values_def dedup_values_first_values split: if_splits)
  then show ?thesis by (rule script_numeric)
qed

lemma discovered_values_distinct: "distinct (discovered_values pg spf)"
  by (simp add: discovered_values_def dedup_distinct)

lemma discovered_values_set:
  "\<not> evaluate_fails pg \<Longrightarrow>
     set (discovered_values pg spf) = set (option_values_script spf (elements pg))"
  by (simp add: discovered_values_def dedup_set script_numeric)

lemma discover_loop_filter:
  "discover_loop pg l acc = acc @ filter (\<lambda>g. ax_values g \<noteq> []) (map (option_group pg) l)"
  by (induction pg l acc rule: discover_loop.induct) (simp_all add: option_group_def Let_def)

lemma discover_options_cases:
  "discover_options pg =
     (if length (discovered_axes pg) < 2 \<or> total_values (discovered_axes pg) < 4
      then get_predefined_options else discovered_axes pg)"
  by (simp add: discover_options_def discover_loop_filter discovered_axes_def Let_def)

lemma predefined_shape:
  "map ax_name get_predefined_options = [''Shape'', ''Size'', ''Paper stock'']"
  "map (\<lambda>a. length (ax_values a)) get_predefined_options = [2, 2, 3]"
  by (simp_all add: get_predefined_options_def)

lemma predefined_numeric:
  "ax \<in> set get_predefined_options \<Longrightarrow> v \<in> set (ax_values ax) \<Longrightarrow> is_numeric_id (ov_id v)"
  by (auto simp: get_predefined_options_def is_numeric_id_def is_digit_def)

lemma predefined_distinct:
  "ax \<in> set get_predefined_options \<Longrightarrow> distinct (ax_values ax)"
  by (auto simp: get_predefined_options_def)

lemma discovered_axes_values:
  "ax \<in> set (discovered_axes pg) \<Longrightarrow> \<exists>spf. ax_values ax = discovered_values pg spf"
  by (auto simp: discovered_axes_def option_group_def)

lemma discover_options_numeric:
  assumes "ax \<in> set (discover_options pg)" "v \<in> set (ax_values ax)"
  shows "is_numeric_id (ov_id v)"
proof (cases "length (discovered_axes pg) < 2 \<or> total_values (discovered_axes pg) < 4")
  case True
  with assms show ?thesis by (simp add: discover_options_cases predefined_numeric)
next
  case False
  with assms(1) have "ax \<in> set (discovered_axes pg)" by (simp add: discover_options_cases)
  then obtain spf where "ax_values ax = discovered_values pg spf"
    using discovered_axes_values by blast
  with assms(2) show ?thesis by (simp add: discovered_values_numeric)
qed

lemma discover_options_distinct:
  assumes "ax \<in> set (discover_options pg)"
  shows "distinct (ax_values ax)"
proof (cases "length (discovered_axes pg) < 2 \<or> total_values (discovered_axes pg) < 4")
  case True
  with assms show ?thesis by (simp add: discover_options_cases predefined_distinct)
next
  case False
  with assms(1) have "ax \<in> set (discovered_axes pg)" by (simp add: discover_options_cases)
  then obtain spf where "ax_values ax = discovered_values pg spf"
    using discovered_axes_values by blast
  then show ?thesis by (simp add: discovered_values_distinct)
qed

text \<open>
  Claim C1. When fewer than two axes have a value, or the axes with a value hold fewer
  than four values together, the result is the predefined table (Shape with two values,
  Size with two, Paper stock with three); otherwise it is the list of the axes that have
  a value, unchanged.
\<close>

theorem discover_options_fallback:
  "(length (discovered_axes pg) < 2 \<or> total_values (discovered_axes pg) < 4
      \<longrightarrow> discover_options pg = get_predefined_options)
   \<and> (\<not> (length (discovered_axes pg) < 2 \<or> total_values (discovered_axes pg) < 4)
      \<longrightarrow> discover_options pg = discovered_axes pg)
   \<and> map ax_name get_predefined_options = [''Shape'', ''Size'', ''Paper stock'']
   \<and> map (\<lambda>a. length (ax_values a)) get_predefined_options = [2, 2, 3]"
  by (simp add: discover_options_cases predefined_shape)

lemma rich_page_axes: "discovered_axes rich_page = rich_axes"
  by code_simp

lemma blank_page_axes: "discovered_axes blank_page = []"
  by code_simp

text \<open>
  A page without option markup falls back to the table; a page with two axes of two
  values each keeps what was discovered.
\<close>

theorem discover_options_fallback_witness:
  "discover_options blank_page = get_predefined_options
   \<and> discover_options rich_page = rich_axes"
proof -
  have "length (discovered_axes blank_page) < 2"
    by (simp add: blank_page_axes)
  with discover_options_fallback [of blank_page]
  have "discover_options blank_page = get_predefined_options" by simp
  moreover have "\<not> (length (discovered_axes rich_page) < 2
      \<or> total_values (discovered_axes rich_page) < 4)"
    by (simp add: rich_page_axes rich_axes_def total_values_def)
  with discover_options_fallback [of rich_page]
  have "discover_options rich_page = rich_axes" by (simp add: rich_page_axes)
  ultimately show ?thesis by simp
qed

text \<open>
  Claim C7. Every identifier of a value that option discovery returns is a non-empty
  string of the digits \<open>0\<close> to \<open>9\<close>. The walk visits the element, its parent and
  its grandparent (three levels) and takes the first purely numeric identifier; an
  element on which it finds none contributes no value. Within an axis no pair of
  display text and identifier occurs twice, and no pair that the script reported is lost.
\<close>

theorem option_ids_numeric:
  "(\<forall>ax \<in> set (discover_options pg). \<forall>v \<in> set (ax_values ax).
       ov_id v \<noteq> [] \<and> set (ov_id v) \<subseteq> set ''0123456789'')
   \<and> find_identifier 3 (self_node el # ancestors el) =
       map_option node_identifier
         (find (\<lambda>c. is_numeric_id (node_identifier c)) (take 3 (self_node el # ancestors el)))
   \<and> (find_identifier 3 (self_node el # ancestors el) = None \<longrightarrow> element_values spf el = [])
   \<and> (\<forall>ax \<in> set (discover_options pg). distinct (ax_values ax))
   \<and> distinct (discovered_values pg spf)
   \<and> (\<not> evaluate_fails pg \<longrightarrow>
        set (discovered_values pg spf) = set (option_values_script spf (elements pg)))"
proof (intro conjI ballI impI)
  fix ax v assume "ax \<in> set (discover_options pg)" "v \<in> set (ax_values ax)"
  then have "is_numeric_id (ov_id v)" by (rule discover_options_numeric)
  then show "ov_id v \<noteq> []" "set (ov_id v) \<subseteq> set ''0123456789''"
    unfolding is_numeric_id_def list_all_iff is_digit_def by blast+
next
  show "find_identifier 3 (self_node el # ancestors el) =
       map_option node_identifier
         (find (\<lambda>c. is_numeric_id (node_identifier c)) (take 3 (self_node el # ancestors el)))"
    by (rule find_identifier_take)
next
  assume "find_identifier 3 (self_node el # ancestors el) = None"
  then show "element_values spf el = []" by (rule element_values_excluded)
next
  fix ax assume "ax \<in> set (discover_options pg)"
  then show "distinct (ax_values ax)" by (rule discover_options_distinct)
next
  show "distinct (discovered_values pg spf)" by (rule discovered_values_distinct)
next
  assume "\<not> evaluate_fails pg"
  then show "set (discovered_values pg spf) = set (option_values_script spf (elements pg))"
    by (rule discovered_values_set)
qed

lemma rich_page_script:
  "option_values_script ''spf1'' (elements rich_page) =
     [\<lparr>ov_value = ''Rectangle'', ov_id = ''10''\<rparr>, \<lparr>ov_value = ''Square'', ov_id = ''11''\<rparr>,
      \<lparr>ov_value = ''Rectangle'', ov_id = ''10''\<rparr>]"
  by code_simp

lemma rich_page_values:
  "discovered_values rich_page ''spf1'' =
     [\<lparr>ov_value = ''Rectangle'', ov_id = ''10''\<rparr>, \<lparr>ov_value = ''Square'', ov_id = ''11''\<rparr>]"
  by code_simp

lemma rich_page_excluded:
  "find_identifier 3 (self_node (elements rich_page ! 5) # ancestors (elements rich_page ! 5)) = None"
  "find_identifier 3 (self_node (elements rich_page ! 6) # ancestors (elements rich_page ! 6)) = None"
  by code_simp+

text \<open>
  On the example page the shape axis keeps one \<open>Rectangle\<close> of the two reported, and
  the elements whose numeric identifier sits on the great-grandparent, or whose
  identifier is \<open>opt-7\<close>, give no value.
\<close>

theorem option_ids_numeric_witness:
  "discovered_values rich_page ''spf1'' =
     [\<lparr>ov_value = ''Rectangle'', ov_id = ''10''\<rparr>, \<lparr>ov_value = ''Square'', ov_id = ''11''\<rparr>]
   \<and> element_values ''spf1'' (elements rich_page ! 5) = []
   \<and> element_values ''spf1'' (elements rich_page ! 6) = []
   \<and> set (discovered_values rich_page ''spf1'')
       = set (option_values_script ''spf1'' (elements rich_page))"
proof -
  have "\<not> evaluate_fails rich_page" by (simp add: rich_page_def)
  with option_ids_numeric [of rich_page "elements rich_page ! 5" "''spf1''"]
    option_ids_numeric [of rich_page "elements rich_page ! 6" "''spf1''"]
    rich_page_excluded rich_page_values
  show ?thesis by simp
qed

section \<open>The selection enumerator: proofs\<close>

lemma length_itertools_product:
  "length (itertools_product xss) = prod_list (map length xss)"
proof (induction xss)
  case Nil
  then show ?case by simp
next
  case (Cons xs xss)
  have "length (concat (map (\<lambda>x. map (\<lambda>combo. x # combo) (itertools_product xss)) ys))
          = length ys * length (itertools_product xss)" for ys
    by (induction ys) simp_all
  with Cons show ?case by simp
qed

lemma nth_concat_uniform:
  assumes "\<And>x. length (f x) = m" and "i < length xs * m"
  shows "concat (map f xs) ! i = f (xs ! (i div m)) ! (i mod m)"
  using assms(2)
proof (induction xs arbitrary: i)
  case Nil
  then show ?case by simp
next
  case (Cons x xs)
  from Cons.prems have m: "0 < m" by (cases m) simp_all
  show ?case
  proof (cases "i < m")
    case True
    then show ?thesis by (simp add: nth_append assms(1))
  next
    case False
    then have ge: "m \<le> i" by simp
    with Cons.prems have "i - m < length xs * m" by simp
    from Cons.IH [OF this] have "concat (map f xs) ! (i - m) = f (xs ! ((i - m) div m)) ! ((i - m) mod m)" .
    moreover from ge m have "(i - m) div m = i div m - 1" "(i - m) mod m = i mod m"
      using div_add_self2 [of m "i - m"] by (simp_all add: le_mod_geq)
    moreover from ge m have "0 < i div m"
      by (simp add: div_greater_zero_iff)
    ultimately show ?thesis
      using False by (simp add: nth_append assms(1) nth_Cons')
  qed
qed

lemma nth_itertools_product_Cons:
  assumes "i < length (itertools_product (xs # xss))"
  shows "itertools_product (xs # xss) ! i =
           xs ! (i div length (itertools_product xss))
           # itertools_product xss ! (i mod length (itertools_product xss))"
proof -
  let ?P = "itertools_product xss"
  let ?f = "\<lambda>x. map (\<lambda>combo. x # combo) ?P"
  have len: "\<And>x. length (?f x) = length ?P" by simp
  from assms have i: "i < length xs * length ?P"
    by (simp add: length_itertools_product del: itertools_product.simps)
  then have pos: "0 < length ?P" by (cases "length ?P") simp_all
  from nth_concat_uniform [of ?f "length ?P" i xs, OF len i]
  have "itertools_product (xs # xss) ! i = ?f (xs ! (i div length ?P)) ! (i mod length ?P)"
    by simp
  also have "\<dots> = xs ! (i div length ?P) # ?P ! (i mod length ?P)"
    using pos by simp
  finally show ?thesis .
qed

lemma length_nth_itertools_product:
  "i < length (itertools_product xss) \<Longrightarrow> length (itertools_product xss ! i) = length xss"
proof (induction xss arbitrary: i)
  case Nil
  then show ?case by simp
next
  case (Cons xs xss)
  let ?P = "itertools_product xss"
  from Cons.prems have "i < length xs * length ?P"
    by (simp add: length_itertools_product del: itertools_product.simps)
  then have "0 < length ?P" by (cases "length ?P") simp_all
  then have "i mod length ?P < length ?P" by simp
  from Cons.IH [OF this] nth_itertools_product_Cons [OF Cons.prems] show ?case by simp
qed

lemma mod_div_mod:
  fixes i a n d :: nat
  shows "(i mod (a * n * d)) div d mod n = i div d mod n"
proof -
  have "i mod (d * (a * n)) div d = i div d mod (a * n)"
    by (cases "d = 0") (simp_all add: mod_mult2_eq)
  then have "(i mod (a * n * d)) div d = i div d mod (a * n)"
    by (simp add: mult.commute)
  then show ?thesis by (simp add: mod_mod_cancel)
qed

lemma prod_list_split:
  assumes "k < length xs"
  shows "prod_list xs = prod_list (take k xs) * xs ! k * prod_list (drop (Suc k) xs)"
proof -
  have "xs = take k xs @ xs ! k # drop (Suc k) xs"
    using assms by (rule id_take_nth_drop)
  then have "prod_list xs = prod_list (take k xs @ xs ! k # drop (Suc k) xs)" by simp
  then show ?thesis by (simp add: mult.assoc)
qed

lemma nth_nth_itertools_product:
  "i < length (itertools_product xss) \<Longrightarrow> j < length xss \<Longrightarrow>
     itertools_product xss ! i ! j =
       (xss ! j) ! ((i div prod_list (map length (drop (Suc j) xss))) mod length (xss ! j))"
proof (induction xss arbitrary: i j)
  case Nil
  then show ?case by simp
next
  case (Cons xs xss)
  let ?P = "itertools_product xss"
  let ?m = "length ?P"
  have m: "?m = prod_list (map length xss)" by (rule length_itertools_product)
  from Cons.prems(1) have i: "i < length xs * ?m"
    by (simp add: length_itertools_product del: itertools_product.simps)
  then have pos: "0 < ?m" by (cases ?m) simp_all
  have step: "itertools_product (xs # xss) ! i = xs ! (i div ?m) # ?P ! (i mod ?m)"
    using Cons.prems(1) by (rule nth_itertools_product_Cons)
  show ?case
  proof (cases j)
    case 0
    from i have "i div ?m < length xs"
      by (simp add: less_mult_imp_div_less)
    with 0 step m show ?thesis by simp
  next
    case (Suc k)
    with Cons.prems(2) have k: "k < length xss" by simp
    from pos have "i mod ?m < ?m" by simp
    from Cons.IH [OF this k]
    have "?P ! (i mod ?m) ! k =
        (xss ! k) ! (((i mod ?m) div prod_list (map length (drop (Suc k) xss))) mod length (xss ! k))" .
    moreover have "?m = prod_list (take k (map length xss)) * length (xss ! k)
        * prod_list (map length (drop (Suc k) xss))"
      using k prod_list_split [of k "map length xss"] m by (simp add: drop_map)
    then have "((i mod ?m) div prod_list (map length (drop (Suc k) xss))) mod length (xss ! k)
        = (i div prod_list (map length (drop (Suc k) xss))) mod length (xss ! k)"
      by (simp only: mod_div_mod)
    ultimately show ?thesis using Suc step by simp
  qed
qed

lemma update_fresh: "k \<notin> fst ` set al \<Longrightarrow> AList.update k v al = al @ [(k, v)]"
  by (induction al) auto

lemma selection_of_gen:
  "distinct (map fst acc @ map s_key combo) \<Longrightarrow>
     foldl (\<lambda>d item. AList.update (s_key item) item d) acc combo
       = acc @ map (\<lambda>item. (s_key item, item)) combo"
proof (induction combo arbitrary: acc)
  case Nil
  then show ?case by simp
next
  case (Cons a combo)
  from Cons.prems have fresh: "s_key a \<notin> fst ` set acc" by auto
  from Cons.prems have "distinct (map fst (acc @ [(s_key a, a)]) @ map s_key combo)" by auto
  from Cons.IH [OF this] fresh show ?case by (simp add: update_fresh)
qed

lemma selection_of_distinct:
  "distinct (map s_key combo) \<Longrightarrow> selection_of combo = map (\<lambda>item. (s_key item, item)) combo"
  using selection_of_gen [of "[]" combo] by (simp add: selection_of_def)

lemma option_value_lists_surviving:
  "option_value_lists opts = map values_with_meta (surviving opts)"
  by (simp add: option_value_lists_def surviving_def filter_map comp_def values_with_meta_def)

lemma length_values_with_meta: "length (values_with_meta a) = length (ax_values a)"
  by (simp add: values_with_meta_def)

lemma nth_values_with_meta:
  "n < length (ax_values a) \<Longrightarrow> values_with_meta a ! n = snd (pick a n)"
  by (simp add: values_with_meta_def pick_def)

lemma prod_list_lengths:
  "prod_list (map length (map values_with_meta axes)) = prod_list (counts axes)"
  by (simp add: counts_def comp_def length_values_with_meta)

lemma all_combinations_surviving:
  "surviving opts \<noteq> [] \<Longrightarrow>
     all_combinations opts = itertools_product (map values_with_meta (surviving opts))"
  by (simp add: all_combinations_def option_value_lists_surviving)

lemma all_combinations_none:
  "surviving opts = [] \<Longrightarrow> all_combinations opts = []"
  by (simp add: all_combinations_def option_value_lists_surviving)

lemma surviving_nonempty_values:
  "j < length (surviving opts) \<Longrightarrow> 0 < length (ax_values (surviving opts ! j))"
proof -
  assume "j < length (surviving opts)"
  then have "surviving opts ! j \<in> set (surviving opts)" by simp
  then show ?thesis by (simp add: surviving_def)
qed

lemma nth_combination:
  assumes i: "i < length (itertools_product (map values_with_meta axes))"
    and pos: "\<And>j. j < length axes \<Longrightarrow> 0 < length (ax_values (axes ! j))"
  shows "itertools_product (map values_with_meta axes) ! i = map snd (nth_selection axes i)"
proof (rule nth_equalityI)
  show "length (itertools_product (map values_with_meta axes) ! i)
      = length (map snd (nth_selection axes i))"
    using length_nth_itertools_product [OF i] by (simp add: nth_selection_def)
next
  fix j assume "j < length (itertools_product (map values_with_meta axes) ! i)"
  then have j: "j < length axes"
    using length_nth_itertools_product [OF i] by simp
  let ?n = "(i div prod_list (counts (drop (Suc j) axes))) mod length (ax_values (axes ! j))"
  from j have "itertools_product (map values_with_meta axes) ! i ! j
      = (map values_with_meta axes ! j)
          ! ((i div prod_list (map length (drop (Suc j) (map values_with_meta axes))))
              mod length (map values_with_meta axes ! j))"
    using nth_nth_itertools_product [OF i, of j] by simp
  also have "\<dots> = values_with_meta (axes ! j) ! ?n"
    using j prod_list_lengths [of "drop (Suc j) axes"]
    by (simp add: drop_map length_values_with_meta)
  also have "\<dots> = snd (pick (axes ! j) ?n)"
    using pos [OF j] by (simp add: nth_values_with_meta)
  finally show "itertools_product (map values_with_meta axes) ! i ! j
      = map snd (nth_selection axes i) ! j"
    using j by (simp add: nth_selection_def)
qed

lemma nth_selection_keys: "map fst (nth_selection axes i) = map ax_key axes"
  by (rule nth_equalityI) (simp_all add: nth_selection_def pick_def)

lemma nth_selection_canonical:
  "map (\<lambda>item. (s_key item, item)) (map snd (nth_selection axes i)) = nth_selection axes i"
  by (rule nth_equalityI) (simp_all add: nth_selection_def pick_def)

lemma s_key_nth_selection: "map s_key (map snd (nth_selection axes i)) = map ax_key axes"
  by (rule nth_equalityI) (simp_all add: nth_selection_def pick_def)

lemma nth_enumerate_selections:
  assumes "distinct (map ax_key (surviving opts))" "surviving opts \<noteq> []"
    and i: "i < length (enumerate_selections opts)"
  shows "enumerate_selections opts ! i = nth_selection (surviving opts) i"
proof -
  let ?S = "surviving opts"
  let ?C = "itertools_product (map values_with_meta ?S)"
  from assms(2) have combos: "all_combinations opts = ?C" by (rule all_combinations_surviving)
  with i have i': "i < length ?C" by (simp add: enumerate_selections_def)
  have c: "?C ! i = map snd (nth_selection ?S i)"
    using i' surviving_nonempty_values by (rule nth_combination)
  have "enumerate_selections opts ! i = selection_of (?C ! i)"
    using i' combos by (simp add: enumerate_selections_def)
  also have "\<dots> = map (\<lambda>item. (s_key item, item)) (?C ! i)"
  proof -
    have "distinct (map s_key (?C ! i))"
      using assms(1) by (simp only: c s_key_nth_selection)
    then show ?thesis by (rule selection_of_distinct)
  qed
  also have "\<dots> = nth_selection ?S i"
    by (simp only: c nth_selection_canonical)
  finally show ?thesis .
qed

lemma length_enumerate_selections:
  assumes "surviving opts \<noteq> []"
  shows "length (enumerate_selections opts) = prod_list (counts (surviving opts))"
proof -
  have "length (enumerate_selections opts) = length (all_combinations opts)"
    by (simp add: enumerate_selections_def)
  also have "\<dots> = length (itertools_product (map values_with_meta (surviving opts)))"
    using all_combinations_surviving [OF assms] by (simp only:)
  also have "\<dots> = prod_list (map length (map values_with_meta (surviving opts)))"
    by (rule length_itertools_product)
  also have "\<dots> = prod_list (counts (surviving opts))"
    by (rule prod_list_lengths)
  finally show ?thesis .
qed

lemma itertools_product_product_lists: "itertools_product xss = product_lists xss"
  by (induction xss) simp_all

lemma distinct_values_with_meta:
  assumes "distinct (ax_values a)"
  shows "distinct (values_with_meta a)"
proof -
  let ?f = "\<lambda>val. \<lparr>s_key = ax_key a, s_value = ov_value val, s_id = ov_id val,
                     s_spf_param = ax_spf_param a\<rparr>"
  have "inj_on ?f (set (ax_values a))"
    by (rule inj_onI) simp
  with assms show ?thesis
    by (simp add: values_with_meta_def distinct_map)
qed

lemma wf_axes_surviving: "wf_axes opts \<Longrightarrow> wf_axes (surviving opts)"
  by (simp add: wf_axes_def surviving_def distinct_map_filter list_all_iff)

lemma distinct_combinations:
  assumes "wf_axes opts"
  shows "distinct (itertools_product (map values_with_meta (surviving opts)))"
proof -
  from assms have "\<forall>a \<in> set (surviving opts). distinct (ax_values a)"
    using wf_axes_surviving [of opts] by (simp add: wf_axes_def list_all_iff)
  then have "\<forall>xs \<in> set (map values_with_meta (surviving opts)). distinct xs"
    by (auto simp: distinct_values_with_meta)
  then show ?thesis
    unfolding itertools_product_product_lists by (rule distinct_product_lists)
qed

lemma selection_of_combination:
  assumes keys: "distinct (map ax_key (surviving opts))"
    and c: "c \<in> set (itertools_product (map values_with_meta (surviving opts)))"
  shows "selection_of c = map (\<lambda>item. (s_key item, item)) c"
proof -
  let ?S = "surviving opts"
  let ?C = "itertools_product (map values_with_meta ?S)"
  from c obtain i where i: "i < length ?C" "c = ?C ! i"
    by (auto simp: in_set_conv_nth)
  have "?C ! i = map snd (nth_selection ?S i)"
    using i(1) surviving_nonempty_values by (rule nth_combination)
  with i(2) have "map s_key c = map ax_key ?S"
    by (simp only: s_key_nth_selection)
  with keys have "distinct (map s_key c)" by simp
  then show ?thesis by (rule selection_of_distinct)
qed

lemma distinct_enumerate_selections:
  assumes "wf_axes opts" "surviving opts \<noteq> []"
  shows "distinct (enumerate_selections opts)"
proof -
  let ?C = "itertools_product (map values_with_meta (surviving opts))"
  have keys: "distinct (map ax_key (surviving opts))"
    using wf_axes_surviving [OF assms(1)] by (simp add: wf_axes_def)
  have "inj_on selection_of (set ?C)"
  proof (rule inj_onI)
    fix c d assume c: "c \<in> set ?C" and d: "d \<in> set ?C"
      and eq: "selection_of c = selection_of d"
    have "map snd (selection_of c) = c"
      using selection_of_combination [OF keys c] by (simp add: comp_def)
    moreover have "map snd (selection_of d) = d"
      using selection_of_combination [OF keys d] by (simp add: comp_def)
    ultimately show "c = d" using eq by metis
  qed
  moreover have "distinct ?C" using assms(1) by (rule distinct_combinations)
  ultimately have "distinct (map selection_of ?C)" by (simp add: distinct_map)
  then show ?thesis
    using all_combinations_surviving [OF assms(2)] by (simp only: enumerate_selections_def)
qed

lemma surviving_all: "list_all (\<lambda>a. ax_values a \<noteq> []) opts \<Longrightarrow> surviving opts = opts"
  by (simp add: surviving_def list_all_iff)

lemma predefined_wf: "wf_axes get_predefined_options"
  by code_simp

lemma predefined_surviving: "surviving get_predefined_options = get_predefined_options"
  by code_simp

lemma predefined_ids:
  "map (map (\<lambda>kv. s_id (snd kv))) (enumerate_selections get_predefined_options) =
     [[''1390'', ''1391'', ''1419''], [''1390'', ''1391'', ''1420''],
      [''1390'', ''1391'', ''1421''], [''1390'', ''1406'', ''1419''],
      [''1390'', ''1406'', ''1420''], [''1390'', ''1406'', ''1421''],
      [''1399'', ''1391'', ''1419''], [''1399'', ''1391'', ''1420''],
      [''1399'', ''1391'', ''1421''], [''1399'', ''1406'', ''1419''],
      [''1399'', ''1406'', ''1420''], [''1399'', ''1406'', ''1421'']]"
  by code_simp

lemma predefined_counts: "counts (surviving get_predefined_options) = [2, 2, 3]"
  by code_simp

lemma gap_counts: "counts (surviving gap_axes) = [2, 3]"
  by code_simp

lemma discovered_axes_wf: "wf_axes (discovered_axes pg)"
proof -
  have "distinct (map ax_key (map (option_group pg) spf_names))"
    by (simp add: spf_names_def option_group_def)
  then have "distinct (map ax_key (discovered_axes pg))"
    unfolding discovered_axes_def by (rule distinct_map_filter)
  moreover have "\<forall>a \<in> set (discovered_axes pg). distinct (ax_values a)"
    using discovered_axes_values discovered_values_distinct by fastforce
  ultimately show ?thesis by (simp add: wf_axes_def list_all_iff)
qed

lemma discovered_axes_surviving: "surviving (discovered_axes pg) = discovered_axes pg"
  by (simp add: surviving_def discovered_axes_def)

lemma discover_options_wf:
  "wf_axes (discover_options pg) \<and> surviving (discover_options pg) = discover_options pg
   \<and> discover_options pg \<noteq> []"
proof (cases "length (discovered_axes pg) < 2 \<or> total_values (discovered_axes pg) < 4")
  case True
  then have "discover_options pg = get_predefined_options"
    by (simp add: discover_options_cases)
  moreover have "get_predefined_options \<noteq> []"
    by (simp add: get_predefined_options_def)
  ultimately show ?thesis
    using predefined_wf predefined_surviving by simp
next
  case False
  then have eq: "discover_options pg = discovered_axes pg"
    by (simp add: discover_options_cases)
  moreover from False have "discovered_axes pg \<noteq> []" by auto
  ultimately show ?thesis
    using discovered_axes_wf discovered_axes_surviving by simp
qed

text \<open>
  Claim C4. The list of axes that the enumerator receives from option discovery is never
  empty and each of its axes has a value; the number of selections is the product of the
  value counts of its axes, the selections are pairwise distinct, and selection \<open>i\<close>
  assigns to axis \<open>j\<close> the value at position \<open>(i div c) mod n\<close>, where \<open>n\<close> is
  the value count of that axis and \<open>c\<close> the product of the counts of the axes after it:
  one value per axis, the first axis varying slowest. The count is the product of the
  value counts for every non-empty list of axes that all have a value. An axis without
  values is left out of the product and of the selections: as long as one axis has a
  value, the count is the product over the axes that have one. Distinctness and the order
  hold for every list of axes with distinct keys and without repeated values.
\<close>

theorem enumerate_selections_product:
  "discover_options pg \<noteq> []
   \<and> list_all (\<lambda>a. ax_values a \<noteq> []) (discover_options pg)
   \<and> length (enumerate_selections (discover_options pg)) = prod_list (counts (discover_options pg))
   \<and> distinct (enumerate_selections (discover_options pg))
   \<and> (\<forall>i < length (enumerate_selections (discover_options pg)).
         enumerate_selections (discover_options pg) ! i = nth_selection (discover_options pg) i)
   \<and> (opts \<noteq> [] \<and> list_all (\<lambda>a. ax_values a \<noteq> []) opts \<longrightarrow>
         length (enumerate_selections opts) = prod_list (counts opts))
   \<and> (surviving opts \<noteq> [] \<longrightarrow>
         length (enumerate_selections opts) = prod_list (counts (surviving opts)))
   \<and> (wf_axes opts \<and> surviving opts \<noteq> [] \<longrightarrow>
         distinct (enumerate_selections opts)
         \<and> (\<forall>i < length (enumerate_selections opts).
               enumerate_selections opts ! i = nth_selection (surviving opts) i))"
proof -
  let ?d = "discover_options pg"
  have wf: "wf_axes ?d" and sv: "surviving ?d = ?d" and ne: "?d \<noteq> []"
    using discover_options_wf [of pg] by simp_all
  have valued: "list_all (\<lambda>a. ax_values a \<noteq> []) ?d"
  proof -
    have "list_all (\<lambda>a. ax_values a \<noteq> []) (surviving ?d)"
      by (simp add: surviving_def list_all_iff)
    with sv show ?thesis by simp
  qed
  have general: "distinct (enumerate_selections xs)
      \<and> (\<forall>i < length (enumerate_selections xs).
            enumerate_selections xs ! i = nth_selection (surviving xs) i)"
    if "wf_axes xs" "surviving xs \<noteq> []" for xs
  proof (intro conjI allI impI)
    from that show "distinct (enumerate_selections xs)"
      by (rule distinct_enumerate_selections)
  next
    fix i assume i: "i < length (enumerate_selections xs)"
    from that(1) have "distinct (map ax_key (surviving xs))"
      using wf_axes_surviving [of xs] by (simp add: wf_axes_def)
    from this that(2) i show "enumerate_selections xs ! i = nth_selection (surviving xs) i"
      by (rule nth_enumerate_selections)
  qed
  have count: "length (enumerate_selections xs) = prod_list (counts (surviving xs))"
    if "surviving xs \<noteq> []" for xs
    using that by (rule length_enumerate_selections)
  have a: "length (enumerate_selections ?d) = prod_list (counts ?d)"
    using count [of ?d] sv ne by simp
  have b: "distinct (enumerate_selections ?d)
      \<and> (\<forall>i < length (enumerate_selections ?d). enumerate_selections ?d ! i = nth_selection ?d i)"
    using general [of ?d] wf sv ne by simp
  have c: "length (enumerate_selections opts) = prod_list (counts opts)"
    if "opts \<noteq> [] \<and> list_all (\<lambda>a. ax_values a \<noteq> []) opts"
    using that count [of opts] surviving_all [of opts] by simp
  show ?thesis
    using ne valued a b c count [of opts] general [of opts] by blast
qed

text \<open>
  The predefined table, with axes of sizes 2, 2 and 3, gives 12 distinct selections in
  this order; with the values of its second axis removed it gives 6.
\<close>

theorem enumerate_selections_product_witness:
  "length (enumerate_selections get_predefined_options) = 12
   \<and> distinct (enumerate_selections get_predefined_options)
   \<and> map (map (\<lambda>kv. s_id (snd kv))) (enumerate_selections get_predefined_options) =
       [[''1390'', ''1391'', ''1419''], [''1390'', ''1391'', ''1420''],
        [''1390'', ''1391'', ''1421''], [''1390'', ''1406'', ''1419''],
        [''1390'', ''1406'', ''1420''], [''1390'', ''1406'', ''1421''],
        [''1399'', ''1391'', ''1419''], [''1399'', ''1391'', ''1420''],
        [''1399'', ''1391'', ''1421''], [''1399'', ''1406'', ''1419''],
        [''1399'', ''1406'', ''1420''], [''1399'', ''1406'', ''1421'']]
   \<and> length (enumerate_selections gap_axes) = 6"
proof -
  have ne: "surviving get_predefined_options \<noteq> []"
    using predefined_counts by (auto simp: counts_def)
  from enumerate_selections_product [of blank_page get_predefined_options] ne predefined_wf
    predefined_counts
  have "length (enumerate_selections get_predefined_options) = 12"
    "distinct (enumerate_selections get_predefined_options)"
    by simp_all
  moreover have "surviving gap_axes \<noteq> []"
    using gap_counts by (auto simp: counts_def)
  with enumerate_selections_product [of blank_page gap_axes] gap_counts
  have "length (enumerate_selections gap_axes) = 6" by simp
  ultimately show ?thesis using predefined_ids by simp
qed

section \<open>Requoting: proofs\<close>

lemma update_has: "(k, v) \<in> set (AList.update k v al)"
  by (induction al) auto

lemma update_keeps: "(n, x) \<in> set al \<Longrightarrow> n \<noteq> k \<Longrightarrow> (n, x) \<in> set (AList.update k v al)"
  by (induction al) auto

lemma variant_params_Cons:
  "variant_params bp (kv # sel) =
     variant_params (AList.update (s_spf_param (snd kv)) (s_id (snd kv)) bp) sel"
  by (simp add: variant_params_def)

lemma variant_params_frame:
  "(n, x) \<in> set bp \<Longrightarrow> n \<notin> axis_param ` set sel \<Longrightarrow> (n, x) \<in> set (variant_params bp sel)"
proof (induction sel arbitrary: bp)
  case Nil
  then show ?case by (simp add: variant_params_def)
next
  case (Cons kv sel)
  from Cons.prems have "n \<noteq> s_spf_param (snd kv)" "n \<notin> axis_param ` set sel"
    by (auto simp: axis_param_def)
  with Cons.prems(1) Cons.IH show ?case
    by (simp add: variant_params_Cons update_keeps)
qed

lemma variant_params_overlay:
  "distinct (map axis_param sel) \<Longrightarrow> kv \<in> set sel \<Longrightarrow>
     chosen_pair kv \<in> set (variant_params bp sel)"
proof (induction sel arbitrary: bp)
  case Nil
  then show ?case by simp
next
  case (Cons a sel)
  let ?bp = "AList.update (s_spf_param (snd a)) (s_id (snd a)) bp"
  show ?case
  proof (cases "kv = a")
    case True
    have "(s_spf_param (snd a), s_id (snd a)) \<in> set ?bp" by (rule update_has)
    moreover from Cons.prems(1) have "s_spf_param (snd a) \<notin> axis_param ` set sel"
      by (auto simp: axis_param_def)
    ultimately have "(s_spf_param (snd a), s_id (snd a)) \<in> set (variant_params ?bp sel)"
      by (rule variant_params_frame)
    with True show ?thesis by (simp add: variant_params_Cons chosen_pair_def)
  next
    case False
    with Cons.prems have "kv \<in> set sel" "distinct (map axis_param sel)" by auto
    from Cons.IH [OF this(2) this(1)] show ?thesis by (simp add: variant_params_Cons)
  qed
qed

lemma variant_params_distinct:
  "distinct (map fst bp) \<Longrightarrow> distinct (map fst (variant_params bp sel))"
proof (induction sel arbitrary: bp)
  case Nil
  then show ?case by (simp add: variant_params_def)
next
  case (Cons kv sel)
  then show ?case by (simp add: variant_params_Cons distinct_update)
qed

lemma variant_params_keys:
  "fst ` set (variant_params bp sel) = fst ` set bp \<union> axis_param ` set sel"
proof (induction sel arbitrary: bp)
  case Nil
  then show ?case by (simp add: variant_params_def)
next
  case (Cons kv sel)
  then show ?case by (auto simp: variant_params_Cons dom_update axis_param_def)
qed

lemma hex_digit_range: "hex_digit n \<in> set ''0123456789ABCDEF''"
proof -
  have "n mod 16 < length ''0123456789ABCDEF''" by simp
  then show ?thesis unfolding hex_digit_def by (rule nth_mem)
qed

lemma hex_digit_not_amp: "hex_digit n \<noteq> CHR ''&''"
proof
  assume "hex_digit n = CHR ''&''"
  with hex_digit_range [of n] have "CHR ''&'' \<in> set ''0123456789ABCDEF''" by simp
  then show False by simp
qed

lemma quote_char_no_amp: "CHR ''&'' \<notin> set (quote_char c)"
proof (cases "is_unreserved c")
  case True
  then have "c \<noteq> CHR ''&''" by (auto simp: is_unreserved_def)
  with True show ?thesis by (simp add: quote_char_def)
next
  case False
  then show ?thesis
    using hex_digit_not_amp [of "of_char c div 16"] hex_digit_not_amp [of "of_char c mod 16"]
    by (auto simp: quote_char_def)
qed

lemma quote_plus_no_amp: "CHR ''&'' \<notin> set (quote_plus s)"
  by (simp add: quote_plus_def quote_char_no_amp)

lemma encode_pair_no_amp: "CHR ''&'' \<notin> set (encode_pair kv)"
  by (simp add: encode_pair_def quote_plus_no_amp)

lemma split_amp_nonempty: "split_amp s \<noteq> []"
  by (induction s) (auto split: list.splits)

lemma split_amp_single: "CHR ''&'' \<notin> set s \<Longrightarrow> split_amp s = [s]"
  by (induction s) (auto split: list.splits)

lemma split_amp_append:
  "CHR ''&'' \<notin> set s \<Longrightarrow> split_amp (s @ CHR ''&'' # t) = s # split_amp t"
  by (induction s) (auto split: list.splits)

lemma split_join_amp:
  "segs \<noteq> [] \<Longrightarrow> \<forall>s \<in> set segs. CHR ''&'' \<notin> set s \<Longrightarrow> split_amp (join_amp segs) = segs"
proof (induction segs rule: join_amp.induct)
  case 1
  then show ?case by simp
next
  case (2 s)
  then show ?case by (simp add: split_amp_single)
next
  case (3 s t ts)
  then show ?case by (simp add: split_amp_append)
qed

lemma split_urlencode: "ps \<noteq> [] \<Longrightarrow> split_amp (urlencode ps) = map encode_pair ps"
  unfolding urlencode_def by (rule split_join_amp) (auto simp: encode_pair_no_amp)

lemma hex_digit_inj:
  assumes "m < 16" "n < 16" "hex_digit m = hex_digit n"
  shows "m = n"
proof -
  have d: "distinct ''0123456789ABCDEF''" by simp
  have l: "length ''0123456789ABCDEF'' = 16" by simp
  from assms have "''0123456789ABCDEF'' ! m = ''0123456789ABCDEF'' ! n"
    by (simp add: hex_digit_def)
  with d l assms(1,2) show ?thesis
    by (simp only: nth_eq_iff_index_eq)
qed

lemma escaped_inj:
  assumes "hex_digit (of_char c div 16) = hex_digit (of_char d div 16)"
    and "hex_digit (of_char c mod 16) = hex_digit (of_char d mod 16)"
  shows "c = d"
proof -
  have "(of_char c :: nat) < 256" "(of_char d :: nat) < 256"
    by (simp_all add: of_char_def)
  then have "(of_char c :: nat) div 16 < 16" "(of_char d :: nat) div 16 < 16"
    by (simp_all add: less_mult_imp_div_less)
  from this assms(1) have hi: "(of_char c :: nat) div 16 = of_char d div 16"
    by (rule hex_digit_inj)
  have "(of_char c :: nat) mod 16 = of_char d mod 16"
    using assms(2) by (intro hex_digit_inj) simp_all
  with hi have "(of_char c :: nat) = of_char d"
    by (metis div_mult_mod_eq)
  then show ?thesis by simp
qed

lemma percent_reserved: "\<not> is_unreserved CHR ''%''" "\<not> is_unreserved CHR ''+''"
  "\<not> is_unreserved CHR ''=''" "\<not> is_unreserved CHR '' ''"
  by (simp_all add: is_unreserved_def)

lemma quote_char_cases:
  obtains (plain) "is_unreserved c" "quote_char c = [c]"
  | (space) "c = CHR '' ''" "quote_char c = ''+''"
  | (escaped) "\<not> is_unreserved c" "c \<noteq> CHR '' ''"
      "quote_char c = [CHR ''%'', hex_digit (of_char c div 16), hex_digit (of_char c mod 16)]"
  using percent_reserved(4) by (cases "is_unreserved c"; cases "c = CHR '' ''") (auto simp: quote_char_def)

lemma quote_char_prefix_free:
  assumes "quote_char c @ r = quote_char d @ r'"
  shows "c = d \<and> r = r'"
proof (cases c rule: quote_char_cases)
  case plain
  show ?thesis
  proof (cases d rule: quote_char_cases)
    case plain': plain
    with plain assms show ?thesis by simp
  next
    case space
    with plain assms percent_reserved show ?thesis by auto
  next
    case escaped
    with plain assms percent_reserved show ?thesis by auto
  qed
next
  case space
  show ?thesis
  proof (cases d rule: quote_char_cases)
    case plain
    with space assms percent_reserved show ?thesis by auto
  next
    case space': space
    with space assms show ?thesis by simp
  next
    case escaped
    with space assms show ?thesis by simp
  qed
next
  case escaped
  show ?thesis
  proof (cases d rule: quote_char_cases)
    case plain
    with escaped assms percent_reserved show ?thesis by auto
  next
    case space
    with escaped assms show ?thesis by simp
  next
    case escaped': escaped
    with escaped assms have
      "hex_digit (of_char c div 16) = hex_digit (of_char d div 16)"
      "hex_digit (of_char c mod 16) = hex_digit (of_char d mod 16)" "r = r'"
      by simp_all
    then show ?thesis using escaped_inj by blast
  qed
qed

lemma hex_digit_not_eq: "hex_digit n \<noteq> CHR ''=''"
proof
  assume "hex_digit n = CHR ''=''"
  with hex_digit_range [of n] have "CHR ''='' \<in> set ''0123456789ABCDEF''" by simp
  then show False by simp
qed

lemma quote_char_no_eq: "CHR ''='' \<notin> set (quote_char c)"
proof (cases c rule: quote_char_cases)
  case plain
  with percent_reserved(3) show ?thesis by auto
next
  case space
  then show ?thesis by simp
next
  case escaped
  then show ?thesis
    using hex_digit_not_eq [of "of_char c div 16"] hex_digit_not_eq [of "of_char c mod 16"]
    by auto
qed

lemma quote_char_nonempty: "quote_char c \<noteq> []"
  by (cases c rule: quote_char_cases) simp_all

lemma quote_plus_Cons: "quote_plus (c # s) = quote_char c @ quote_plus s"
  by (simp add: quote_plus_def)

lemma eq_not_quoted: "CHR ''='' # r \<noteq> quote_plus (d # t) @ r'"
proof
  assume "CHR ''='' # r = quote_plus (d # t) @ r'"
  then have "CHR ''='' = hd (quote_char d)"
    using quote_char_nonempty [of d] by (cases "quote_char d") (simp_all add: quote_plus_Cons)
  then have "CHR ''='' \<in> set (quote_char d)"
    using quote_char_nonempty [of d] by (metis hd_in_set)
  with quote_char_no_eq show False by blast
qed

lemma quote_plus_split:
  "quote_plus s @ CHR ''='' # r = quote_plus t @ CHR ''='' # r' \<Longrightarrow> s = t \<and> r = r'"
proof (induction s arbitrary: t)
  case Nil
  show ?case
  proof (cases t)
    case Nil
    with Nil.prems show ?thesis by (simp add: quote_plus_def)
  next
    case (Cons d t')
    with Nil.prems have "CHR ''='' # r = quote_plus (d # t') @ CHR ''='' # r'"
      by (simp add: quote_plus_def)
    with eq_not_quoted show ?thesis by blast
  qed
next
  case (Cons c s)
  show ?case
  proof (cases t)
    case Nil
    with Cons.prems have "CHR ''='' # r' = quote_plus (c # s) @ CHR ''='' # r"
      by (simp add: quote_plus_def)
    with eq_not_quoted show ?thesis by blast
  next
    case (Cons d t')
    with Cons.prems have "quote_char c @ (quote_plus s @ CHR ''='' # r)
        = quote_char d @ (quote_plus t' @ CHR ''='' # r')"
      by (simp add: quote_plus_Cons)
    then have "c = d" "quote_plus s @ CHR ''='' # r = quote_plus t' @ CHR ''='' # r'"
      using quote_char_prefix_free by blast+
    with Cons.IH [of t'] Cons show ?thesis by simp
  qed
qed

lemma quote_plus_inj: "quote_plus s = quote_plus t \<Longrightarrow> s = t"
  using quote_plus_split [of s "[]" t "[]"] by simp

lemma encode_pair_inj: "encode_pair a = encode_pair b \<Longrightarrow> a = b"
proof -
  assume "encode_pair a = encode_pair b"
  then have "quote_plus (fst a) @ CHR ''='' # quote_plus (snd a)
      = quote_plus (fst b) @ CHR ''='' # quote_plus (snd b)"
    by (simp add: encode_pair_def)
  then have "fst a = fst b" "quote_plus (snd a) = quote_plus (snd b)"
    using quote_plus_split by blast+
  then show ?thesis using quote_plus_inj by (simp add: prod_eq_iff)
qed

lemma spf_params_distinct: "distinct (map ax_spf_param (discover_options pg))"
proof (cases "length (discovered_axes pg) < 2 \<or> total_values (discovered_axes pg) < 4")
  case True
  then show ?thesis
    by (simp add: discover_options_cases get_predefined_options_def)
next
  case False
  have "distinct (map ax_spf_param (map (option_group pg) spf_names))"
    by (simp add: spf_names_def option_group_def)
  then have "distinct (map ax_spf_param (discovered_axes pg))"
    unfolding discovered_axes_def by (rule distinct_map_filter)
  with False show ?thesis by (simp add: discover_options_cases)
qed

lemma nth_selection_params: "map axis_param (nth_selection axes i) = map ax_spf_param axes"
  by (rule nth_equalityI) (simp_all add: nth_selection_def pick_def axis_param_def)

lemma discovered_selection_params:
  assumes "sel \<in> set (enumerate_selections (discover_options pg))"
  shows "distinct (map axis_param sel)"
proof -
  let ?opts = "discover_options pg"
  from assms obtain i where i: "i < length (enumerate_selections ?opts)"
      "sel = enumerate_selections ?opts ! i"
    by (auto simp: in_set_conv_nth)
  have wf: "wf_axes ?opts" "surviving ?opts = ?opts" "?opts \<noteq> []"
    using discover_options_wf [of pg] by simp_all
  then have "distinct (map ax_key (surviving ?opts))" "surviving ?opts \<noteq> []"
    by (simp_all add: wf_axes_def)
  from nth_enumerate_selections [OF this i(1)] i(2) wf(2)
  have "sel = nth_selection ?opts i" by simp
  then show ?thesis
    using spf_params_distinct [of pg] by (simp add: nth_selection_params)
qed

text \<open>
  Claim C8. For a selection whose axes control distinct query parameters, the requoted
  URL keeps the scheme, host and path of the base URL and its query string is the
  encoding, entry by entry, of the overlaid parameters, an encoding that determines name
  and value; these parameters hold, for each selected axis, its parameter with the
  identifier of the chosen value, and every base parameter that is not an axis parameter
  of the selection with its value; no name occurs twice.
\<close>

theorem requoted_url_overlay:
  assumes "distinct (map axis_param sel)"
  shows "(\<forall>kv \<in> set sel. chosen_pair kv \<in> set (variant_params bp sel))
    \<and> (\<forall>nx \<in> set bp. fst nx \<notin> axis_param ` set sel \<longrightarrow> nx \<in> set (variant_params bp sel))
    \<and> (distinct (map fst bp) \<longrightarrow> distinct (map fst (variant_params bp sel)))
    \<and> (variant_params bp sel \<noteq> [] \<longrightarrow>
         split_amp (query (requoted_components lib base_url (variant_params bp sel)))
           = map encode_pair (variant_params bp sel))
    \<and> inj encode_pair
    \<and> scheme (requoted_components lib base_url (variant_params bp sel))
         = scheme (urlparse lib base_url)
    \<and> netloc (requoted_components lib base_url (variant_params bp sel))
         = netloc (urlparse lib base_url)
    \<and> path (requoted_components lib base_url (variant_params bp sel))
         = path (urlparse lib base_url)
    \<and> build_url_with_params lib base_url (variant_params bp sel)
         = urlunparse lib (requoted_components lib base_url (variant_params bp sel))"
proof (intro conjI ballI impI)
  fix kv assume "kv \<in> set sel"
  with assms show "chosen_pair kv \<in> set (variant_params bp sel)"
    by (rule variant_params_overlay)
next
  fix nx assume "nx \<in> set bp" "fst nx \<notin> axis_param ` set sel"
  then show "nx \<in> set (variant_params bp sel)"
    using variant_params_frame [of "fst nx" "snd nx" bp sel] by simp
next
  assume "distinct (map fst bp)"
  then show "distinct (map fst (variant_params bp sel))" by (rule variant_params_distinct)
next
  assume "variant_params bp sel \<noteq> []"
  then show "split_amp (query (requoted_components lib base_url (variant_params bp sel)))
           = map encode_pair (variant_params bp sel)"
    by (simp add: requoted_components_def Let_def split_urlencode)
next
  show "inj encode_pair" by (rule injI) (rule encode_pair_inj)
qed (simp_all add: requoted_components_def build_url_with_params_def Let_def)

lemma example_selection_params: "map axis_param example_selection = [''spf1'', ''spf2'', ''spf3'']"
  by code_simp

lemma example_variant_params:
  "variant_params example_params example_selection =
     [(''id'', ''443495438''), (''spf0'', ''1411''), (''spf1'', ''1399''), (''spf2'', ''1406''),
      (''spf3'', ''1421''), (''productGroupId'', ''1386''), (''indexManagementId'', ''3'')]"
  by code_simp

lemma example_variant_url:
  "build_url_with_params example_lib ''https://us.bizay.com/en-us/business-cards-2''
       (variant_params example_params example_selection) =
     ''https://us.bizay.com/en-us/business-cards-2?id=443495438&spf0=1411&spf1=1399''
     @ ''&spf2=1406&spf3=1421&productGroupId=1386&indexManagementId=3''"
  by code_simp

text \<open>
  The last selection of the predefined table on the default product URL: the three axis
  parameters get the chosen identifiers, the other four parameters are unchanged.
\<close>

theorem requoted_url_overlay_witness:
  "split_amp (query (requoted_components example_lib ''https://us.bizay.com/en-us/business-cards-2''
       (variant_params example_params example_selection)))
     = [''id=443495438'', ''spf0=1411'', ''spf1=1399'', ''spf2=1406'', ''spf3=1421'',
        ''productGroupId=1386'', ''indexManagementId=3'']
   \<and> build_url_with_params example_lib ''https://us.bizay.com/en-us/business-cards-2''
       (variant_params example_params example_selection) =
     ''https://us.bizay.com/en-us/business-cards-2?id=443495438&spf0=1411&spf1=1399''
     @ ''&spf2=1406&spf3=1421&productGroupId=1386&indexManagementId=3''"
proof -
  have d: "distinct (map axis_param example_selection)"
    by (simp add: example_selection_params)
  have enc: "map encode_pair (variant_params example_params example_selection)
      = [''id=443495438'', ''spf0=1411'', ''spf1=1399'', ''spf2=1406'', ''spf3=1421'',
         ''productGroupId=1386'', ''indexManagementId=3'']"
    by code_simp
  have ne: "variant_params example_params example_selection \<noteq> []"
    by (simp add: example_variant_params)
  from requoted_url_overlay [OF d, of example_params example_lib
      "''https://us.bizay.com/en-us/business-cards-2''"] ne enc example_variant_url
  show ?thesis by simp
qed

section \<open>The matrix assembler: proofs\<close>

lemma scrape_variant_eq:
  "scrape_variant lib R base_url bp sel b =
     ((if nav_ok (R (length (navlog b)) (variant_url lib base_url bp sel))
       then Some (variant_of sel (nav_page (R (length (navlog b)) (variant_url lib base_url bp sel))))
       else None),
      \<lparr>navlog = navlog b @ [variant_url lib base_url bp sel],
       current = nav_page (R (length (navlog b)) (variant_url lib base_url bp sel))\<rparr>)"
  by (simp add: scrape_variant_def goto_def variant_url_def variant_of_def Let_def)

lemma loop_variants_Nil: "loop_variants lib R base_url bp n [] = []"
  by (simp add: loop_variants_def)

lemma loop_variants_Cons:
  "loop_variants lib R base_url bp n (sel # sels) =
     contribution lib R base_url bp (n, sel) @ loop_variants lib R base_url bp (Suc n) sels"
proof -
  have "[n ..< n + length (sel # sels)] = n # [Suc n ..< Suc n + length sels]"
    using upt_conv_Cons [of n "n + length (sel # sels)"] by simp
  then show ?thesis by (simp only: loop_variants_def zip_Cons_Cons list.map concat.simps)
qed

lemma page_after_Cons:
  "page_after lib R base_url bp n (sel # sels) pg =
     page_after lib R base_url bp (Suc n) sels (nav_page (R n (variant_url lib base_url bp sel)))"
  by (simp add: page_after_def)

lemma scrape_loop_eq:
  "scrape_loop lib R base_url bp sels vs b =
     (vs @ loop_variants lib R base_url bp (length (navlog b)) sels,
      \<lparr>navlog = navlog b @ map (variant_url lib base_url bp) sels,
       current = page_after lib R base_url bp (length (navlog b)) sels (current b)\<rparr>)"
proof (induction sels arbitrary: vs b)
  case Nil
  then show ?case by (simp add: loop_variants_Nil page_after_def)
next
  case (Cons sel sels)
  let ?u = "variant_url lib base_url bp sel"
  let ?r = "R (length (navlog b)) ?u"
  let ?b = "\<lparr>navlog = navlog b @ [?u], current = nav_page ?r\<rparr>"
  show ?case
  proof (cases "nav_ok ?r")
    case True
    then have "scrape_loop lib R base_url bp (sel # sels) vs b
        = scrape_loop lib R base_url bp sels (vs @ [variant_of sel (nav_page ?r)]) ?b"
      by (simp add: scrape_variant_eq)
    with True show ?thesis
      by (simp add: Cons.IH loop_variants_Cons page_after_Cons contribution_def)
  next
    case False
    then have "scrape_loop lib R base_url bp (sel # sels) vs b
        = scrape_loop lib R base_url bp sels vs ?b"
      by (simp add: scrape_variant_eq)
    with False show ?thesis
      by (simp add: Cons.IH loop_variants_Cons page_after_Cons contribution_def)
  qed
qed

lemma loop_variants_empty_iff:
  "loop_variants lib R base_url bp n sels = [] \<longleftrightarrow>
     (\<forall>k < length sels. \<not> nav_ok (R (n + k) (variant_url lib base_url bp (sels ! k))))"
proof (induction sels arbitrary: n)
  case Nil
  then show ?case by (simp add: loop_variants_Nil)
next
  case (Cons sel sels)
  have "(\<forall>k < length (sel # sels). \<not> nav_ok (R (n + k) (variant_url lib base_url bp ((sel # sels) ! k))))
      \<longleftrightarrow> (\<not> nav_ok (R n (variant_url lib base_url bp sel))
          \<and> (\<forall>k < length sels. \<not> nav_ok (R (Suc n + k) (variant_url lib base_url bp (sels ! k)))))"
    by (auto simp: less_Suc_eq_0_disj)
  with Cons.IH [of "Suc n"] show ?case
    by (simp add: loop_variants_Cons contribution_def)
qed

lemma loop_variants_selection:
  "v \<in> set (loop_variants lib R base_url bp n sels) \<Longrightarrow>
     \<exists>sel \<in> set sels. selection v =
        map (\<lambda>kv. (fst kv, \<lparr>ov_value = s_value (snd kv), ov_id = s_id (snd kv)\<rparr>)) sel
        \<and> available v = (pricing v \<noteq> [])"
proof (induction sels arbitrary: n)
  case Nil
  then show ?case by (simp add: loop_variants_Nil)
next
  case (Cons sel sels)
  from Cons.prems have "v \<in> set (contribution lib R base_url bp (n, sel))
      \<or> v \<in> set (loop_variants lib R base_url bp (Suc n) sels)"
    by (simp add: loop_variants_Cons)
  then show ?case
  proof
    assume "v \<in> set (contribution lib R base_url bp (n, sel))"
    then have "v = variant_of sel (nav_page (R n (variant_url lib base_url bp sel)))"
      by (simp add: contribution_def split: if_splits)
    then show ?thesis by (simp add: variant_of_def)
  next
    assume "v \<in> set (loop_variants lib R base_url bp (Suc n) sels)"
    from Cons.IH [OF this] show ?thesis by auto
  qed
qed

lemma scrape_base_failure:
  "\<not> nav_ok (R 0 url) \<Longrightarrow>
     scrape lib R url = (Inl NavigationError, \<lparr>navlog = [url], current = nav_page (R 0 url)\<rparr>)"
  by (simp add: scrape_def goto_def new_page_def Let_def)

lemma scrape_base_ok:
  assumes "nav_ok (R 0 url)"
  shows "scrape lib R url =
     (Inr \<lparr>source_url = url,
           options = format_options (discover_options (nav_page (R 0 url))),
           variants = base_configuration
             (loop_variants lib R (base_of url) (parse_url_params lib url) 1 (selections_for R url))
             \<lparr>navlog = url # map (variant_url lib (base_of url) (parse_url_params lib url))
                               (selections_for R url),
              current = page_after lib R (base_of url) (parse_url_params lib url) 1
                          (selections_for R url) (nav_page (R 0 url))\<rparr>\<rparr>,
      \<lparr>navlog = url # map (variant_url lib (base_of url) (parse_url_params lib url))
                        (selections_for R url),
       current = page_after lib R (base_of url) (parse_url_params lib url) 1
                   (selections_for R url) (nav_page (R 0 url))\<rparr>)"
  using assms
  by (simp add: scrape_def goto_def new_page_def Let_def scrape_loop_eq base_of_def
        selections_for_def)

lemma base_configuration_nonempty: "vs \<noteq> [] \<Longrightarrow> base_configuration vs b = vs"
  by (simp add: base_configuration_def)

lemma base_configuration_empty:
  "base_configuration [] b =
     (if extract_pricing (current b) \<noteq> []
      then [\<lparr>sku = None, available = True, selection = [], pricing = extract_pricing (current b)\<rparr>]
      else [])"
  by (simp add: base_configuration_def Let_def)

lemma counts_positive: "0 < prod_list (counts (surviving opts))"
proof -
  have "\<forall>n \<in> set (counts (surviving opts)). 0 < n"
    by (auto simp: counts_def surviving_def)
  then have "0 \<notin> set (counts (surviving opts))" by auto
  then have "prod_list (counts (surviving opts)) \<noteq> 0" by (simp add: prod_list_zero_iff)
  then show ?thesis by simp
qed

lemma selections_for_nonempty: "selections_for R url \<noteq> []"
proof -
  let ?opts = "discover_options (nav_page (R 0 url))"
  have "surviving ?opts \<noteq> []" using discover_options_wf [of "nav_page (R 0 url)"] by simp
  then have "length (enumerate_selections ?opts) = prod_list (counts (surviving ?opts))"
    by (rule length_enumerate_selections)
  with counts_positive [of ?opts] show ?thesis
    by (auto simp: selections_for_def)
qed

lemma selections_for_entries: "sel \<in> set (selections_for R url) \<Longrightarrow> sel \<noteq> []"
proof -
  let ?opts = "discover_options (nav_page (R 0 url))"
  assume "sel \<in> set (selections_for R url)"
  then obtain i where i: "i < length (enumerate_selections ?opts)"
      "sel = enumerate_selections ?opts ! i"
    by (auto simp: selections_for_def in_set_conv_nth)
  have wf: "wf_axes ?opts" "surviving ?opts \<noteq> []"
    using discover_options_wf [of "nav_page (R 0 url)"] by simp_all
  then have "distinct (map ax_key (surviving ?opts))"
    using wf_axes_surviving [of ?opts] by (simp add: wf_axes_def)
  from nth_enumerate_selections [OF this wf(2) i(1)] i(2)
  have "sel = nth_selection (surviving ?opts) i" by simp
  then have "length sel = length (surviving ?opts)" by (simp add: nth_selection_def)
  with wf(2) show ?thesis by auto
qed

lemma in_concat_map: "x \<in> set xs \<Longrightarrow> y \<in> set (f x) \<Longrightarrow> y \<in> set (concat (map f xs))"
  by auto

lemma length_loop_variants:
  "length (loop_variants lib R base_url bp n sels) =
     length (filter (\<lambda>k. nav_ok (R (n + k) (variant_url lib base_url bp (sels ! k))))
               [0 ..< length sels])"
proof (induction sels arbitrary: n)
  case Nil
  then show ?case by (simp add: loop_variants_Nil)
next
  case (Cons sel sels)
  let ?P = "\<lambda>k. nav_ok (R (n + k) (variant_url lib base_url bp ((sel # sels) ! k)))"
  have "[0 ..< length (sel # sels)] = 0 # map Suc [0 ..< length sels]"
    by (simp add: upt_conv_Cons map_Suc_upt del: upt_Suc)
  then have "length (filter ?P [0 ..< length (sel # sels)])
      = (if ?P 0 then 1 else 0) + length (filter (?P \<circ> Suc) [0 ..< length sels])"
    by (simp add: filter_map del: upt_Suc)
  also have "length (filter (?P \<circ> Suc) [0 ..< length sels])
      = length (loop_variants lib R base_url bp (Suc n) sels)"
    by (simp add: Cons.IH [of "Suc n"] comp_def)
  finally show ?case
    by (simp add: loop_variants_Cons contribution_def)
qed

text \<open>
  Claim C9. The page of the product is navigated to once: when that navigation fails,
  \<open>scrape\<close> ends with the error after this single attempt. When it succeeds, every
  selection is navigated to exactly once, in order, whether or not earlier navigations
  failed; the variants gathered by the loop are the concatenation of what each selection
  contributes by itself, so every selection whose navigation succeeds is in the record.
\<close>

theorem navigation_attempts:
  "(\<not> nav_ok (R 0 url) \<longrightarrow>
      scrape lib R url = (Inl NavigationError, \<lparr>navlog = [url], current = nav_page (R 0 url)\<rparr>))
   \<and> (nav_ok (R 0 url) \<longrightarrow>
      navlog (snd (scrape lib R url))
        = url # map (variant_url lib (base_of url) (parse_url_params lib url)) (selections_for R url)
      \<and> (loop_variants lib R (base_of url) (parse_url_params lib url) 1 (selections_for R url) \<noteq> []
           \<longrightarrow> scrape_variants lib R url
                 = loop_variants lib R (base_of url) (parse_url_params lib url) 1 (selections_for R url))
      \<and> (\<forall>k < length (selections_for R url).
            nav_ok (R (Suc k) (variant_url lib (base_of url) (parse_url_params lib url)
                                 (selections_for R url ! k)))
            \<longrightarrow> variant_of (selections_for R url ! k)
                  (nav_page (R (Suc k) (variant_url lib (base_of url) (parse_url_params lib url)
                                          (selections_for R url ! k))))
                \<in> set (scrape_variants lib R url)))"
proof (intro conjI impI allI)
  assume "\<not> nav_ok (R 0 url)"
  then show "scrape lib R url
      = (Inl NavigationError, \<lparr>navlog = [url], current = nav_page (R 0 url)\<rparr>)"
    by (rule scrape_base_failure)
next
  assume ok: "nav_ok (R 0 url)"
  show "navlog (snd (scrape lib R url))
      = url # map (variant_url lib (base_of url) (parse_url_params lib url)) (selections_for R url)"
    by (simp add: scrape_base_ok [of R url lib, OF ok])
next
  assume ok: "nav_ok (R 0 url)"
    and "loop_variants lib R (base_of url) (parse_url_params lib url) 1 (selections_for R url) \<noteq> []"
  then show "scrape_variants lib R url
      = loop_variants lib R (base_of url) (parse_url_params lib url) 1 (selections_for R url)"
    by (simp add: scrape_variants_def scrape_base_ok [of R url lib, OF ok] base_configuration_nonempty)
next
  fix k
  let ?bp = "parse_url_params lib url"
  let ?sels = "selections_for R url"
  let ?u = "variant_url lib (base_of url) ?bp (?sels ! k)"
  assume ok: "nav_ok (R 0 url)" and k: "k < length ?sels" and okk: "nav_ok (R (Suc k) ?u)"
  have "(Suc k, ?sels ! k) \<in> set (zip [1 ..< 1 + length ?sels] ?sels)"
  proof -
    have "k < length (zip [1 ..< 1 + length ?sels] ?sels)"
      using k by (simp del: upt_Suc)
    moreover have "zip [1 ..< 1 + length ?sels] ?sels ! k = (Suc k, ?sels ! k)"
      using k by (simp del: upt_Suc)
    ultimately show ?thesis by (metis nth_mem)
  qed
  moreover from okk have "contribution lib R (base_of url) ?bp (Suc k, ?sels ! k)
      = [variant_of (?sels ! k) (nav_page (R (Suc k) ?u))]"
    by (simp add: contribution_def)
  ultimately have mem: "variant_of (?sels ! k) (nav_page (R (Suc k) ?u))
      \<in> set (loop_variants lib R (base_of url) ?bp 1 ?sels)"
    unfolding loop_variants_def
    by (intro in_concat_map [of "(Suc k, ?sels ! k)"]) simp_all
  then have "loop_variants lib R (base_of url) ?bp 1 ?sels \<noteq> []" by auto
  then have "scrape_variants lib R url = loop_variants lib R (base_of url) ?bp 1 ?sels"
    by (simp add: scrape_variants_def scrape_base_ok [of R url lib, OF ok] base_configuration_nonempty)
  with mem show "variant_of (?sels ! k) (nav_page (R (Suc k) ?u)) \<in> set (scrape_variants lib R url)"
    by simp
qed

lemma flaky_ashley:
  "ashley_initial_load flaky example_url
     = (True, \<lparr>navlog = [example_url, example_url], current = priced_page\<rparr>)"
  by (simp add: ashley_initial_load_def goto_def new_page_def flaky_def numeral_2_eq_2)

lemma blank_page_selections:
  "length (enumerate_selections (discover_options blank_page)) = 12"
  by code_simp

lemma one_bad_selections: "length (selections_for one_bad example_url) = 12"
  by (simp add: selections_for_def one_bad_def blank_page_selections)

lemma one_bad_count:
  "length (loop_variants lib one_bad base_url bp 1 (selections_for one_bad example_url)) = 11"
  by (simp add: length_loop_variants one_bad_selections one_bad_def upt_rec)

text \<open>
  With a renderer whose first navigation fails and whose second would succeed,
  \<open>scrape\<close> gives up after one attempt, where the initial load of the catalogue scraper
  succeeds on its second. With a renderer that fails on the third selection only, all
  twelve selections are navigated to and eleven variants are recorded.
\<close>

theorem navigation_attempts_witness:
  "scrape example_lib flaky example_url
     = (Inl NavigationError, \<lparr>navlog = [example_url], current = blank_page\<rparr>)
   \<and> ashley_initial_load flaky example_url
     = (True, \<lparr>navlog = [example_url, example_url], current = priced_page\<rparr>)
   \<and> length (scrape_variants example_lib one_bad example_url) = 11
   \<and> length (navlog (snd (scrape example_lib one_bad example_url))) = 13"
proof -
  have "\<not> nav_ok (flaky 0 example_url)" "nav_page (flaky 0 example_url) = blank_page"
    by (simp_all add: flaky_def)
  with navigation_attempts [of flaky example_url example_lib]
  have a: "scrape example_lib flaky example_url
     = (Inl NavigationError, \<lparr>navlog = [example_url], current = blank_page\<rparr>)"
    by simp
  let ?vs = "loop_variants example_lib one_bad (base_of example_url)
      (parse_url_params example_lib example_url) 1 (selections_for one_bad example_url)"
  have ok: "nav_ok (one_bad 0 example_url)" by (simp add: one_bad_def)
  have n: "length ?vs = 11" by (rule one_bad_count)
  then have "?vs \<noteq> []" by auto
  with navigation_attempts [of one_bad example_url example_lib] ok
  have "scrape_variants example_lib one_bad example_url = ?vs"
    "navlog (snd (scrape example_lib one_bad example_url))
      = example_url # map (variant_url example_lib (base_of example_url)
          (parse_url_params example_lib example_url)) (selections_for one_bad example_url)"
    by simp_all
  with n one_bad_selections
  have "length (scrape_variants example_lib one_bad example_url) = 11"
    "length (navlog (snd (scrape example_lib one_bad example_url))) = 13"
    by simp_all
  with a flaky_ashley show ?thesis by simp
qed

text \<open>
  Claim C10, amended. After a successful load of the product page there is at least one
  selection. The pricing of the page loaded at that moment is extracted, and (when it has
  a tier) emitted as the single variant with an empty selection and availability true,
  exactly when every per-variant navigation failed. As soon as one navigation succeeds,
  the variants are those of the loop, each with a non-empty selection and available
  exactly when it has a tier: a variant without pricing is recorded as unavailable and
  no base-configuration variant is added.
\<close>

theorem base_configuration_fallback:
  "nav_ok (R 0 url) \<longrightarrow>
     selections_for R url \<noteq> []
     \<and> ((\<forall>k < length (selections_for R url).
            \<not> nav_ok (R (1 + k) (variant_url lib (base_of url) (parse_url_params lib url)
                                    (selections_for R url ! k))))
          \<longrightarrow> scrape_variants lib R url
               = (if extract_pricing (current (snd (scrape lib R url))) \<noteq> []
                  then [\<lparr>sku = None, available = True, selection = [],
                         pricing = extract_pricing (current (snd (scrape lib R url)))\<rparr>]
                  else []))
     \<and> (\<not> (\<forall>k < length (selections_for R url).
            \<not> nav_ok (R (1 + k) (variant_url lib (base_of url) (parse_url_params lib url)
                                    (selections_for R url ! k))))
          \<longrightarrow> scrape_variants lib R url
               = loop_variants lib R (base_of url) (parse_url_params lib url) 1 (selections_for R url)
             \<and> scrape_variants lib R url \<noteq> []
             \<and> (\<forall>v \<in> set (scrape_variants lib R url).
                   selection v \<noteq> [] \<and> available v = (pricing v \<noteq> [])))"
proof (intro impI conjI)
  show "selections_for R url \<noteq> []" by (rule selections_for_nonempty)
next
  let ?bp = "parse_url_params lib url"
  let ?sels = "selections_for R url"
  assume ok: "nav_ok (R 0 url)"
    and "\<forall>k < length ?sels. \<not> nav_ok (R (1 + k) (variant_url lib (base_of url) ?bp (?sels ! k)))"
  then have "loop_variants lib R (base_of url) ?bp 1 ?sels = []"
    by (simp only: loop_variants_empty_iff)
  then show "scrape_variants lib R url
      = (if extract_pricing (current (snd (scrape lib R url))) \<noteq> []
         then [\<lparr>sku = None, available = True, selection = [],
                pricing = extract_pricing (current (snd (scrape lib R url)))\<rparr>]
         else [])"
    by (simp add: scrape_variants_def scrape_base_ok [of R url lib, OF ok] base_configuration_empty)
next
  let ?bp = "parse_url_params lib url"
  let ?sels = "selections_for R url"
  let ?vs = "loop_variants lib R (base_of url) ?bp 1 ?sels"
  assume ok: "nav_ok (R 0 url)"
    and "\<not> (\<forall>k < length ?sels. \<not> nav_ok (R (1 + k) (variant_url lib (base_of url) ?bp (?sels ! k))))"
  then have ne: "?vs \<noteq> []"
    by (simp only: loop_variants_empty_iff not_False_eq_True)
  then have eq: "scrape_variants lib R url = ?vs"
    by (simp add: scrape_variants_def scrape_base_ok [of R url lib, OF ok] base_configuration_nonempty)
  show "scrape_variants lib R url = ?vs" by (rule eq)
  show "scrape_variants lib R url \<noteq> []" using eq ne by simp
  show "\<forall>v \<in> set (scrape_variants lib R url). selection v \<noteq> [] \<and> available v = (pricing v \<noteq> [])"
  proof
    fix v assume "v \<in> set (scrape_variants lib R url)"
    with eq have "v \<in> set ?vs" by simp
    from loop_variants_selection [OF this] obtain sel where
      sel: "sel \<in> set ?sels"
        "selection v = map (\<lambda>kv. (fst kv, \<lparr>ov_value = s_value (snd kv), ov_id = s_id (snd kv)\<rparr>)) sel"
        "available v = (pricing v \<noteq> [])"
      by blast
    from sel(1) have "sel \<noteq> []" by (rule selections_for_entries)
    with sel(2) sel(3) show "selection v \<noteq> [] \<and> available v = (pricing v \<noteq> [])" by simp
  qed
qed

lemma blank_page_first_keys:
  "map fst (hd (enumerate_selections (discover_options blank_page)))
     = [''shape'', ''size'', ''paper_stock'']"
  by code_simp

lemma blank_page_pricing: "extract_pricing blank_page = []"
  by code_simp

lemma priced_page_pricing: "map quantity (extract_pricing priced_page) = [Some 100]"
proof -
  have script: "pricing_script (pricing_part priced_page)
      = [\<lparr>c_quantity = Some 100, c_total_price = Num 50\<rparr>]"
    by code_simp
  have "\<not> evaluate_fails priced_page" by (simp add: priced_page_def)
  then show ?thesis
    by (simp add: extract_pricing_def script tiers_of_pricing_data_def make_tier_def)
qed

text \<open>
  The claim as stated fails where one variant page loads without prices and the later
  navigations fail, leaving a page with a price row: that selection is recorded as an
  unavailable variant, and no variant with an empty selection is emitted although the
  page loaded at the end has a tier.
\<close>

theorem base_configuration_counterexample:
  "map available (scrape_variants example_lib stalled example_url) = [False]
   \<and> map pricing (scrape_variants example_lib stalled example_url) = [[]]
   \<and> map (\<lambda>v. map fst (selection v)) (scrape_variants example_lib stalled example_url)
       = [[''shape'', ''size'', ''paper_stock'']]
   \<and> map quantity (extract_pricing (current (snd (scrape example_lib stalled example_url))))
       = [Some 100]"
proof -
  let ?base = "base_of example_url" and ?bp = "parse_url_params example_lib example_url"
  let ?sels = "selections_for stalled example_url"
  have ok: "nav_ok (stalled 0 example_url)" by (simp add: stalled_def)
  have len: "length ?sels = 12"
    by (simp add: selections_for_def stalled_def blank_page_selections)
  then obtain s0 rest where sels: "?sels = s0 # rest" by (cases ?sels) simp_all
  have "loop_variants example_lib stalled ?base ?bp (Suc 1) rest = []"
    by (simp add: loop_variants_empty_iff stalled_def)
  then have vs: "loop_variants example_lib stalled ?base ?bp 1 ?sels = [variant_of s0 blank_page]"
    by (simp add: sels loop_variants_Cons contribution_def stalled_def)
  then have sv: "scrape_variants example_lib stalled example_url = [variant_of s0 blank_page]"
    by (simp add: scrape_variants_def scrape_base_ok [of stalled example_url example_lib, OF ok]
          base_configuration_nonempty)
  have "s0 = hd (enumerate_selections (discover_options blank_page))"
    using sels by (simp add: selections_for_def stalled_def)
  then have keys: "map fst s0 = [''shape'', ''size'', ''paper_stock'']"
    using blank_page_first_keys by simp
  have "current (snd (scrape example_lib stalled example_url)) = priced_page"
    using selections_for_nonempty [of stalled example_url] len
    by (simp add: scrape_base_ok [of stalled example_url example_lib, OF ok] page_after_def
          stalled_def)
  with sv keys blank_page_pricing priced_page_pricing show ?thesis
    by (simp add: variant_of_def comp_def)
qed

text \<open>
  When the product page loads and each of the twelve variant navigations fails, the
  record holds the single base-configuration variant with the tier of the page that is
  loaded at the end.
\<close>

theorem base_configuration_fallback_witness:
  "map selection (scrape_variants example_lib all_fail example_url) = [[]]
   \<and> map available (scrape_variants example_lib all_fail example_url) = [True]
   \<and> map (\<lambda>v. map quantity (pricing v)) (scrape_variants example_lib all_fail example_url)
       = [[Some 100]]"
proof -
  have ok: "nav_ok (all_fail 0 example_url)" by (simp add: all_fail_def)
  have fail: "\<forall>k < length (selections_for all_fail example_url).
      \<not> nav_ok (all_fail (1 + k) (variant_url example_lib (base_of example_url)
          (parse_url_params example_lib example_url) (selections_for all_fail example_url ! k)))"
    by (simp add: all_fail_def)
  have "current (snd (scrape example_lib all_fail example_url)) = priced_page"
    using selections_for_nonempty [of all_fail example_url]
    by (simp add: scrape_base_ok [of all_fail example_url example_lib, OF ok] page_after_def
          all_fail_def)
  then have pr: "map quantity (extract_pricing (current (snd (scrape example_lib all_fail example_url))))
      = [Some 100]"
    using priced_page_pricing by simp
  then have ne: "extract_pricing (current (snd (scrape example_lib all_fail example_url))) \<noteq> []"
    by auto
  from base_configuration_fallback [of all_fail example_url example_lib] ok fail ne
  have "scrape_variants example_lib all_fail example_url
      = [\<lparr>sku = None, available = True, selection = [],
          pricing = extract_pricing (current (snd (scrape example_lib all_fail example_url)))\<rparr>]"
    by simp
  with pr show ?thesis by simp
qed

end
